theory Spec2Isabelle
  imports Complex_Main "HOL-Library.Word"
begin

section \<open>The lattice\<close>

text \<open>
  The notebook keeps the spin field in a two-dimensional numpy array. It is modelled as
  the list of its rows; \<open>shape\<close> is numpy's \<open>field.shape\<close> and \<open>rect\<close> says that the
  rows have one common length, which every numpy array has by construction. The pure-Python
  kernel works on whatever integers the array holds, so its cells are \<open>int\<close>: numpy's
  fixed-width integers agree with them as long as no sum or product overflows, and on a
  lattice of spins none does (\<open>dE\<close> stays between \<open>-16\<close> and \<open>16\<close>). The Cython kernel
  is typed \<open>np.int64_t\<close> and is modelled on 64-bit words further down.
\<close>

datatype error = ZeroDivisionError | IndexError | OutOfBounds

type_synonym 'a array2 = "'a list list"

type_synonym field = "int array2"

definition shape :: "'a array2 \<Rightarrow> nat \<times> nat" where
  "shape field = (length field, if field = [] then 0 else length (hd field))"

definition rect :: "'a array2 \<Rightarrow> bool" where
  "rect field = (\<forall>row \<in> set field. length row = snd (shape field))"

definition get :: "'a array2 \<Rightarrow> nat \<Rightarrow> nat \<Rightarrow> 'a" where
  "get field n m = field ! n ! m"

definition put :: "'a array2 \<Rightarrow> nat \<Rightarrow> nat \<Rightarrow> 'a \<Rightarrow> 'a array2" where
  "put field n m v = field[n := (field ! n)[m := v]]"

text \<open>Python's \<open>range(a, b)\<close> over integers and \<open>range(a, N, 2)\<close> over indices.\<close>

definition range_int :: "int \<Rightarrow> int \<Rightarrow> int list" where
  "range_int a b = [a..b - 1]"

function range2 :: "nat \<Rightarrow> nat \<Rightarrow> nat list" where
  "range2 a N = (if a < N then a # range2 (a + 2) N else [])"
  by pat_completeness auto
termination
  by (relation "measure (\<lambda>(a, N). N - a)") auto

declare range2.simps [simp del]

section \<open>The site evaluator \<open>_ising_update\<close>\<close>

text \<open>
  The loop nest of \<open>_ising_update\<close>: \<open>i\<close> runs over \<open>range(n-1, n+2)\<close>, \<open>j\<close> over
  \<open>range(m-1, m+2)\<close>, the iteration with \<open>i == n and j == m\<close> is skipped (the test is on
  the unwrapped indices), and the body is run on the wrapped cell \<open>(i % N, j % M)\<close>. The
  body is a parameter, so that one loop gives both the neighbour total and the list of
  the cells it reads. Python's \<open>%\<close> with a positive divisor is HOL's \<open>mod\<close> on \<open>int\<close>.
\<close>

definition neighbour_loop ::
  "(nat \<Rightarrow> nat \<Rightarrow> 'a \<Rightarrow> 'a) \<Rightarrow> nat \<Rightarrow> nat \<Rightarrow> nat \<Rightarrow> nat \<Rightarrow> 'a \<Rightarrow> 'a" where
  "neighbour_loop body N M n m =
     fold (\<lambda>i. fold (\<lambda>j acc. if i = int n \<and> j = int m then acc
                             else body (nat (i mod int N)) (nat (j mod int M)) acc)
                     (range_int (int m - 1) (int m + 2)))
          (range_int (int n - 1) (int n + 2))"

definition neighbour_cells :: "nat \<Rightarrow> nat \<Rightarrow> nat \<Rightarrow> nat \<Rightarrow> (nat \<times> nat) list" where
  "neighbour_cells N M n m = neighbour_loop (\<lambda>a b cells. cells @ [(a, b)]) N M n m []"

definition neighbour_total :: "field \<Rightarrow> nat \<Rightarrow> nat \<Rightarrow> int" where
  "neighbour_total field n m =
     (let (N, M) = shape field
      in neighbour_loop (\<lambda>a b total. total + get field a b) N M n m 0)"

definition local_dE :: "field \<Rightarrow> nat \<Rightarrow> nat \<Rightarrow> int" where
  "local_dE field n m = 2 * get field n m * neighbour_total field n m"

definition flip :: "field \<Rightarrow> nat \<Rightarrow> nat \<Rightarrow> field" where
  "flip field n m = put field n m (get field n m * (- 1))"

text \<open>
  The floating-point arithmetic of the acceptance test is not code of the notebook: the
  conversion of the integer \<open>-dE\<close> to double precision and its product with \<open>beta\<close> are
  numpy's, \<open>np.exp\<close> is numpy's exponential, and the comparison is that of doubles. They
  are parameters of the model, over a type \<open>'f\<close> of double-precision values, so that
  nothing is assumed about their rounding, underflow or special values.
\<close>

record 'f np_float =
  np_of_int :: "int \<Rightarrow> 'f"
  np_mul :: "'f \<Rightarrow> 'f \<Rightarrow> 'f"
  np_exp :: "'f \<Rightarrow> 'f"
  np_gt :: "'f \<Rightarrow> 'f \<Rightarrow> bool"

text \<open>
  The random source \<open>np.random.rand()\<close> is global state in the notebook. Here it is an
  explicit stream \<open>rng\<close> of samples and a position \<open>pos\<close> in it: a draw reads \<open>rng pos\<close>
  and moves the position on by one. The test \<open>np.exp(-dE * beta) > np.random.rand()\<close>
  negates the integer \<open>dE\<close>, multiplies it with the float \<open>beta\<close>, and compares the
  exponential with the sample. The evaluator fails as the Python does: \<open>i % N\<close> raises on
  an empty axis, and \<open>field[n, m]\<close> raises on an index beyond the shape (indices are
  naturals here, so Python's negative indexing does not arise).
\<close>

type_synonym state = "field \<times> nat"

definition ising_update ::
  "'f np_float \<Rightarrow> field \<Rightarrow> nat \<Rightarrow> nat \<Rightarrow> 'f \<Rightarrow> (nat \<Rightarrow> 'f) \<Rightarrow> nat \<Rightarrow> error + state" where
  "ising_update F field n m beta rng pos =
     (let (N, M) = shape field
      in if N = 0 \<or> M = 0 then Inl ZeroDivisionError
         else if N \<le> n \<or> M \<le> m then Inl IndexError
         else let dE = local_dE field n m
              in if dE \<le> 0 then Inr (flip field n m, pos)
                 else if np_gt F (np_exp F (np_mul F (np_of_int F (- dE)) beta)) (rng pos)
                      then Inr (flip field n m, pos + 1)
                      else Inr (field, pos + 1))"

section \<open>The checkerboard sweep \<open>ising_step\<close>\<close>

text \<open>
  The four nested loops of \<open>ising_step\<close>, again with the body as a parameter: \<open>pass\<close> is
  the two inner loops for one pair of offsets, \<open>sweep\<close> the two outer loops over
  \<open>range(2)\<close>. \<open>visit_order\<close> runs the loops with a body that records the site.
\<close>

definition pass ::
  "(nat \<Rightarrow> nat \<Rightarrow> 's \<Rightarrow> 's) \<Rightarrow> nat \<Rightarrow> nat \<Rightarrow> nat \<Rightarrow> nat \<Rightarrow> 's \<Rightarrow> 's" where
  "pass body n_offset m_offset N M =
     fold (\<lambda>n. fold (\<lambda>m. body n m) (range2 m_offset M)) (range2 n_offset N)"

definition sweep :: "(nat \<Rightarrow> nat \<Rightarrow> 's \<Rightarrow> 's) \<Rightarrow> nat \<Rightarrow> nat \<Rightarrow> 's \<Rightarrow> 's" where
  "sweep body N M =
     fold (\<lambda>n_offset. fold (\<lambda>m_offset. pass body n_offset m_offset N M) [0, 1]) [0, 1]"

definition visit_order :: "nat \<Rightarrow> nat \<Rightarrow> (nat \<times> nat) list" where
  "visit_order N M = sweep (\<lambda>n m visited. visited @ [(n, m)]) N M []"

text \<open>
  The sites of the parity class \<open>(n_offset, m_offset)\<close>, rows outermost: the sequence the
  two inner loops reach, as the lemma \<open>pass_fold\<close> below shows.
\<close>

definition class_sites :: "nat \<Rightarrow> nat \<Rightarrow> nat \<Rightarrow> nat \<Rightarrow> (nat \<times> nat) list" where
  "class_sites N M n_offset m_offset = List.product (range2 n_offset N) (range2 m_offset M)"

text \<open>One call of the evaluator on a result: an exception raised earlier propagates.\<close>

definition visit ::
  "'f np_float \<Rightarrow> 'f \<Rightarrow> (nat \<Rightarrow> 'f) \<Rightarrow> nat \<Rightarrow> nat \<Rightarrow> error + state \<Rightarrow> error + state" where
  "visit F beta rng n m r =
     (case r of Inl e \<Rightarrow> Inl e | Inr (field, pos) \<Rightarrow> ising_update F field n m beta rng pos)"

definition ising_step ::
  "'f np_float \<Rightarrow> field \<Rightarrow> 'f \<Rightarrow> (nat \<Rightarrow> 'f) \<Rightarrow> nat \<Rightarrow> error + state" where
  "ising_step F field beta rng pos =
     (let (N, M) = shape field in sweep (visit F beta rng) N M (Inr (field, pos)))"

text \<open>
  A run of \<open>K\<close> steps, as the notebook's loops over \<open>ising_step(images[-1].copy())\<close> make
  it: each step takes the lattice the previous one returned.
\<close>

primrec ising_steps ::
  "'f np_float \<Rightarrow> nat \<Rightarrow> 'f \<Rightarrow> (nat \<Rightarrow> 'f) \<Rightarrow> error + state \<Rightarrow> error + state" where
  "ising_steps F 0 beta rng r = r"
| "ising_steps F (Suc K) beta rng r =
     ising_steps F K beta rng
       (case r of Inl e \<Rightarrow> Inl e | Inr (field, pos) \<Rightarrow> ising_step F field beta rng pos)"

section \<open>The Cython kernel \<open>cy_ising_step\<close>\<close>

text \<open>
  The Cython kernel takes the field as a typed memoryview of \<open>np.int64_t\<close>, so its cells
  are 64-bit words. \<open>total\<close> is a C \<open>int\<close>: each \<open>total += field[...]\<close> adds in 64 bits
  and truncates the sum to 32 bits. \<open>dE\<close> is a C \<open>float\<close>: the product
  \<open>2 * field[n, m] * total\<close> is computed in 64 bits and converted to single precision,
  which rounds an integer of more than 24 significant bits to the nearest representable
  one, ties to even. \<open>float32_of_int\<close> is that conversion; the value of a \<open>float\<close> that
  was converted from an integer is again an integer.
\<close>

type_synonym cy_field = "64 word array2"

function bit_length :: "nat \<Rightarrow> nat" where
  "bit_length a = (if a = 0 then 0 else Suc (bit_length (a div 2)))"
  by pat_completeness auto
termination
  by (relation "measure id") auto

declare bit_length.simps [simp del]

definition float32_of_int :: "int \<Rightarrow> int" where
  "float32_of_int x =
     (let a = nat \<bar>x\<bar>; e = bit_length a
      in if e \<le> 24 then x
         else let u = 2 ^ (e - 24); q = a div u; r = a mod u;
                  q' = (if u < 2 * r \<or> (u = 2 * r \<and> odd q) then q + 1 else q)
              in sgn x * int (q' * u))"

definition cy_neighbour_total :: "cy_field \<Rightarrow> nat \<Rightarrow> nat \<Rightarrow> 32 word" where
  "cy_neighbour_total field n m =
     (let (N, M) = shape field
      in neighbour_loop (\<lambda>a b total. ucast (scast total + get field a b :: 64 word)) N M n m 0)"

definition cy_local_dE :: "cy_field \<Rightarrow> nat \<Rightarrow> nat \<Rightarrow> int" where
  "cy_local_dE field n m =
     float32_of_int (sint (2 * get field n m * scast (cy_neighbour_total field n m) :: 64 word))"

definition cy_flip :: "cy_field \<Rightarrow> nat \<Rightarrow> nat \<Rightarrow> cy_field" where
  "cy_flip field n m = put field n m (get field n m * (- 1))"

text \<open>
  The C arithmetic of the acceptance test \<open>exp(-dE * beta) * RAND_MAX > rand()\<close> is a
  parameter as well, over a type \<open>'s\<close> of single-precision and a type \<open>'d\<close> of
  double-precision values: \<open>dE\<close> and \<open>beta\<close> are C \<open>float\<close>s, so \<open>-dE * beta\<close> is a
  single-precision product; \<open>exp\<close> is the C library's, on doubles, so its argument is
  widened; \<open>RAND_MAX\<close> and \<open>rand()\<close> are C \<open>int\<close>s, converted to double for the product
  and the comparison. \<open>single_of_int\<close> is applied only to the integer that the float
  \<open>-dE\<close> holds.
\<close>

record ('s, 'd) c_float =
  single_of_int :: "int \<Rightarrow> 's"
  single_mul :: "'s \<Rightarrow> 's \<Rightarrow> 's"
  double_of_single :: "'s \<Rightarrow> 'd"
  double_of_int :: "int \<Rightarrow> 'd"
  double_exp :: "'d \<Rightarrow> 'd"
  double_mul :: "'d \<Rightarrow> 'd \<Rightarrow> 'd"
  double_gt :: "'d \<Rightarrow> 'd \<Rightarrow> bool"

text \<open>
  The C library's \<open>rand()\<close> is a stream \<open>rand\<close> of integers between 0 and \<open>RAND_MAX\<close>,
  with a position as before; \<open>RAND_MAX\<close> comes from the C headers and is a parameter.
  Cython keeps Python's \<open>%\<close> (the kernel does not switch \<open>cdivision\<close> on), so
  \<open>i % N\<close> wraps a negative index and raises on \<open>N = 0\<close>. Bounds checking is switched
  off: a site beyond the shape would be an unchecked access, reported as \<open>OutOfBounds\<close>.
\<close>

type_synonym cy_state = "cy_field \<times> nat"

definition cy_ising_update ::
  "('s, 'd) c_float \<Rightarrow> cy_field \<Rightarrow> nat \<Rightarrow> nat \<Rightarrow> 's \<Rightarrow> nat \<Rightarrow> (nat \<Rightarrow> nat) \<Rightarrow> nat
     \<Rightarrow> error + cy_state" where
  "cy_ising_update C field n m beta RAND_MAX rand pos =
     (let (N, M) = shape field
      in if N = 0 \<or> M = 0 then Inl ZeroDivisionError
         else if N \<le> n \<or> M \<le> m then Inl OutOfBounds
         else let dE = cy_local_dE field n m
              in if dE \<le> 0 then Inr (cy_flip field n m, pos)
                 else if double_gt C
                           (double_mul C
                              (double_exp C
                                 (double_of_single C (single_mul C (single_of_int C (- dE)) beta)))
                              (double_of_int C (int RAND_MAX)))
                           (double_of_int C (int (rand pos)))
                      then Inr (cy_flip field n m, pos + 1)
                      else Inr (field, pos + 1))"

definition cy_visit ::
  "('s, 'd) c_float \<Rightarrow> 's \<Rightarrow> nat \<Rightarrow> (nat \<Rightarrow> nat) \<Rightarrow> nat \<Rightarrow> nat \<Rightarrow> error + cy_state
     \<Rightarrow> error + cy_state" where
  "cy_visit C beta RAND_MAX rand n m r =
     (case r of Inl e \<Rightarrow> Inl e
      | Inr (field, pos) \<Rightarrow> cy_ising_update C field n m beta RAND_MAX rand pos)"

definition cy_ising_step ::
  "('s, 'd) c_float \<Rightarrow> cy_field \<Rightarrow> 's \<Rightarrow> nat \<Rightarrow> (nat \<Rightarrow> nat) \<Rightarrow> nat \<Rightarrow> error + cy_state" where
  "cy_ising_step C field beta RAND_MAX rand pos =
     (let (N, M) = shape field
      in sweep (cy_visit C beta RAND_MAX rand) N M (Inr (field, pos)))"

primrec cy_ising_steps ::
  "('s, 'd) c_float \<Rightarrow> nat \<Rightarrow> 's \<Rightarrow> nat \<Rightarrow> (nat \<Rightarrow> nat) \<Rightarrow> error + cy_state
     \<Rightarrow> error + cy_state" where
  "cy_ising_steps C 0 beta RAND_MAX rand r = r"
| "cy_ising_steps C (Suc K) beta RAND_MAX rand r =
     cy_ising_steps C K beta RAND_MAX rand
       (case r of Inl e \<Rightarrow> Inl e
        | Inr (field, pos) \<Rightarrow> cy_ising_step C field beta RAND_MAX rand pos)"

text \<open>
  Floating-point operations return the exact result whenever that result is representable.
  The two instances below compute exactly; they stand for the machine operations in the
  concrete runs further down, all of which keep to such values (integers, the sample
  \<open>1/2\<close>, products with 0 and with 1, and \<open>exp 0 = 1\<close>).
\<close>

definition exact_np :: "real np_float" where
  "exact_np = \<lparr>np_of_int = real_of_int, np_mul = (\<lambda>x y. x * y), np_exp = exp,
                 np_gt = (\<lambda>x y. y < x)\<rparr>"

definition exact_c :: "(real, real) c_float" where
  "exact_c = \<lparr>single_of_int = real_of_int, single_mul = (\<lambda>x y. x * y),
                double_of_single = (\<lambda>x. x), double_of_int = real_of_int, double_exp = exp,
                double_mul = (\<lambda>x y. x * y), double_gt = (\<lambda>x y. y < x)\<rparr>"

text \<open>The int64 array that holds the same spins as a field of Python integers.\<close>

definition to_cy :: "field \<Rightarrow> cy_field" where
  "to_cy field = map (map word_of_int) field"

text \<open>
  A well-formed lattice: a rectangular array whose cells are all \<open>-1\<close> or \<open>+1\<close>, for
  cells that are Python integers as well as for cells that are 64-bit words.
\<close>

definition spins :: "'a::ring_1 array2 \<Rightarrow> bool" where
  "spins field = (rect field \<and> (\<forall>row \<in> set field. \<forall>v \<in> set row. v = - 1 \<or> v = 1))"

section \<open>Arrays as objects\<close>

text \<open>
  A numpy array is an object: the caller and the kernel hold references to one buffer, and
  \<open>field[n, m] *= -1\<close> writes into it. To say which array a step returns, the arrays
  live in a store, a list of arrays in which an address is an index; the functions below
  take the address \<open>a\<close> of the field, read the array at \<open>a\<close> and write the updated one
  back at \<open>a\<close>. \<open>ising_step\<close> ends with \<open>return field\<close>: it returns the address it was
  given. \<open>cy_ising_step\<close> ends with \<open>return np.array(field)\<close>: \<open>np.array\<close> copies its
  argument by default, so it allocates a new array, at the first free address, with the
  contents of the updated buffer, and returns the new address. The typed memoryview the
  Cython function receives shares the buffer of the int64 array it is called on.
\<close>

type_synonym 'a heap = "'a array2 list"

definition visit_at ::
  "'f np_float \<Rightarrow> nat \<Rightarrow> 'f \<Rightarrow> (nat \<Rightarrow> 'f) \<Rightarrow> nat \<Rightarrow> nat \<Rightarrow> error + int heap \<times> nat
     \<Rightarrow> error + int heap \<times> nat" where
  "visit_at F a beta rng n m r =
     (case r of Inl e \<Rightarrow> Inl e
      | Inr (h, pos) \<Rightarrow>
          (case ising_update F (h ! a) n m beta rng pos of Inl e \<Rightarrow> Inl e
           | Inr (field', pos') \<Rightarrow> Inr (h[a := field'], pos')))"

definition ising_step_at ::
  "'f np_float \<Rightarrow> int heap \<Rightarrow> nat \<Rightarrow> 'f \<Rightarrow> (nat \<Rightarrow> 'f) \<Rightarrow> nat
     \<Rightarrow> error + int heap \<times> nat \<times> nat" where
  "ising_step_at F h a beta rng pos =
     (let (N, M) = shape (h ! a)
      in case sweep (visit_at F a beta rng) N M (Inr (h, pos)) of Inl e \<Rightarrow> Inl e
         | Inr (h', pos') \<Rightarrow> Inr (h', a, pos'))"

definition cy_visit_at ::
  "('s, 'd) c_float \<Rightarrow> nat \<Rightarrow> 's \<Rightarrow> nat \<Rightarrow> (nat \<Rightarrow> nat) \<Rightarrow> nat \<Rightarrow> nat
     \<Rightarrow> error + 64 word heap \<times> nat \<Rightarrow> error + 64 word heap \<times> nat" where
  "cy_visit_at C a beta RAND_MAX rand n m r =
     (case r of Inl e \<Rightarrow> Inl e
      | Inr (h, pos) \<Rightarrow>
          (case cy_ising_update C (h ! a) n m beta RAND_MAX rand pos of Inl e \<Rightarrow> Inl e
           | Inr (field', pos') \<Rightarrow> Inr (h[a := field'], pos')))"

definition cy_ising_step_at ::
  "('s, 'd) c_float \<Rightarrow> 64 word heap \<Rightarrow> nat \<Rightarrow> 's \<Rightarrow> nat \<Rightarrow> (nat \<Rightarrow> nat) \<Rightarrow> nat
     \<Rightarrow> error + 64 word heap \<times> nat \<times> nat" where
  "cy_ising_step_at C h a beta RAND_MAX rand pos =
     (let (N, M) = shape (h ! a)
      in case sweep (cy_visit_at C a beta RAND_MAX rand) N M (Inr (h, pos)) of Inl e \<Rightarrow> Inl e
         | Inr (h', pos') \<Rightarrow> Inr (h' @ [h' ! a], length h', pos'))"

section \<open>Basic facts about arrays and ranges\<close>

lemma range_int_3: "range_int (x - 1) (x + 2) = [x - 1, x, x + 1]"
proof -
  have "[x - 1..x + 1] = (x - 1) # [x..x + 1]"
    by (subst upto.simps) simp
  also have "[x..x + 1] = x # [x + 1..x + 1]"
    by (subst upto.simps) simp
  finally have "[x - 1..x + 1] = [x - 1, x, x + 1]"
    by simp
  moreover have "x + 2 - 1 = x + 1"
    by simp
  ultimately show ?thesis
    unfolding range_int_def by (simp only:)
qed

text \<open>The loop nest visits the eight offsets in this order (innermost application first).\<close>

lemma neighbour_loop_unfold:
  "neighbour_loop body N M n m acc =
     (body (nat ((int n + 1) mod int N)) (nat ((int m + 1) mod int M))
     (body (nat ((int n + 1) mod int N)) (nat (int m mod int M))
     (body (nat ((int n + 1) mod int N)) (nat ((int m - 1) mod int M))
     (body (nat (int n mod int N)) (nat ((int m + 1) mod int M))
     (body (nat (int n mod int N)) (nat ((int m - 1) mod int M))
     (body (nat ((int n - 1) mod int N)) (nat ((int m + 1) mod int M))
     (body (nat ((int n - 1) mod int N)) (nat (int m mod int M))
     (body (nat ((int n - 1) mod int N)) (nat ((int m - 1) mod int M)) acc))))))))"
  by (simp add: neighbour_loop_def range_int_3)

lemma shape_put: "shape (put field n m v) = shape field"
  by (cases field; cases n) (simp_all add: shape_def put_def)

lemma rect_put: "rect field \<Longrightarrow> rect (put field n m v)"
proof -
  assume r: "rect field"
  have "length row = snd (shape field)" if "row \<in> set (put field n m v)" for row
  proof -
    from that obtain i where i: "i < length field" "row = put field n m v ! i"
      by (auto simp: put_def in_set_conv_nth)
    then have "length row = length (field ! i)"
      by (cases "i = n") (simp_all add: put_def)
    with r i show ?thesis
      by (simp add: rect_def)
  qed
  then show ?thesis
    by (simp add: rect_def shape_put)
qed

lemma get_put:
  "n < length field \<Longrightarrow> m < length (field ! n) \<Longrightarrow>
   get (put field n m v) n' m' = (if n' = n \<and> m' = m then v else get field n' m')"
  by (auto simp: get_def put_def nth_list_update)

lemma get_put_other:
  "(n', m') \<noteq> (n, m) \<Longrightarrow> get (put field n m v) n' m' = get field n' m'"
  by (cases "n < length field") (auto simp: get_def put_def nth_list_update list_update_beyond)

lemma rect_row:
  "rect field \<Longrightarrow> n < fst (shape field) \<Longrightarrow> length (field ! n) = snd (shape field)"
  by (auto simp: rect_def shape_def)

section \<open>The neighbour sum\<close>

lemma offsets8:
  "{- 1, 0, 1 :: int} \<times> {- 1, 0, 1 :: int} - {(0, 0)} =
   {(- 1, - 1), (- 1, 0), (- 1, 1), (0, - 1), (0, 1), (1, - 1), (1, 0), (1, 1)}"
  by auto

lemma neighbour_total_sum:
  assumes "shape field = (N, M)"
  shows "neighbour_total field n m =
     (\<Sum>(di, dj) \<in> {- 1, 0, 1} \<times> {- 1, 0, 1} - {(0, 0)}.
         get field (nat ((int n + di) mod int N)) (nat ((int m + dj) mod int M)))"
  unfolding offsets8 using assms
  by (simp add: neighbour_total_def neighbour_loop_unfold)

lemma neighbour_cells_origin:
  assumes "3 \<le> N" "3 \<le> M"
  shows "neighbour_cells N M 0 0 =
     [(N - 1, M - 1), (N - 1, 0), (N - 1, 1), (0, M - 1), (0, 1), (1, M - 1), (1, 0), (1, 1)]"
proof -
  have "(- 1) mod int N = int N - 1" "(- 1) mod int M = int M - 1"
    using assms by (simp_all add: zmod_minus1)
  moreover have "nat (int N - 1) = N - 1" "nat (int M - 1) = M - 1"
    by simp_all
  ultimately show ?thesis
    using assms by (simp add: neighbour_cells_def neighbour_loop_unfold)
qed

lemma neighbour_total_cells:
  "shape field = (N, M) \<Longrightarrow>
   neighbour_total field n m =
     sum_list (map (\<lambda>(a, b). get field a b) (neighbour_cells N M n m))"
  by (simp add: neighbour_total_def neighbour_cells_def neighbour_loop_unfold)

text \<open>
  Claim C10. On a lattice of one row and \<open>M \<ge> 3\<close> columns, the neighbour sum that the
  evaluator computes at site \<open>(0, m)\<close> is three times the left neighbour plus three times
  the right neighbour plus twice the site's own spin: the rows \<open>n - 1\<close>, \<open>n\<close> and \<open>n + 1\<close>
  all wrap to row 0, and only the iteration with unwrapped \<open>i = n\<close>, \<open>j = m\<close> is skipped.
\<close>

theorem one_row_neighbour_total:
  assumes "shape field = (1, M)" "3 \<le> M" "m < M"
  shows "neighbour_total field 0 m =
     3 * get field 0 (nat ((int m - 1) mod int M)) +
     3 * get field 0 (nat ((int m + 1) mod int M)) + 2 * get field 0 m"
  using assms by (simp add: neighbour_total_def neighbour_loop_unfold)

theorem one_row_neighbour_total_witness:
  "shape [[1, - 1, 1, 1 :: int]] = (1, 4) \<and> (3::nat) \<le> 4 \<and> (0::nat) < 4 \<and>
   neighbour_total [[1, - 1, 1, 1]] 0 0 = 2"
  using one_row_neighbour_total [of "[[1, - 1, 1, 1]]" 4 0]
  by (simp add: shape_def get_def)

section \<open>The Cython arithmetic on a lattice of spins\<close>

lemma down_of_int: "(ucast (word_of_int x :: 64 word) :: 32 word) = word_of_int x"
  by (rule ucast_down_wi) (simp add: is_down)

lemma total_step_wide:
  "scast (t :: 32 word) + (w :: 64 word) = (word_of_int (sint t + uint w) :: 64 word)"
  apply (subst scast_eq)
  apply (subst wi_hom_add [symmetric])
  apply (subst word_of_int_uint)
  apply (rule refl)
  done

lemma total_step_narrow:
  "(word_of_int (sint t + uint w) :: 32 word) = (t :: 32 word) + ucast (w :: 64 word)"
  apply (subst ucast_eq)
  apply (subst wi_hom_add [symmetric])
  apply (simp only: of_int_sint scast_id)
  done

lemma total_step: "(ucast (scast (t :: 32 word) + (w :: 64 word)) :: 32 word) = t + ucast w"
  by (simp only: total_step_wide down_of_int total_step_narrow)

lemma shape_to_cy: "shape (to_cy field) = shape field"
  by (cases field) (simp_all add: shape_def to_cy_def)

lemma rect_to_cy: "rect field \<Longrightarrow> rect (to_cy field)"
  by (auto simp: rect_def shape_to_cy) (auto simp: to_cy_def)

lemma get_to_cy:
  "n < length field \<Longrightarrow> m < length (field ! n) \<Longrightarrow>
   get (to_cy field) n m = word_of_int (get field n m)"
  by (simp add: get_def to_cy_def)

lemma get_to_cy_rect:
  assumes "rect field" "shape field = (N, M)" "a < N" "b < M"
  shows "get (to_cy field) a b = word_of_int (get field a b)"
  using assms rect_row [of field a] by (simp add: get_to_cy shape_def)

lemma wrap_less: "0 < N \<Longrightarrow> nat (i mod int N) < N"
  by (simp add: nat_less_iff)

lemma cy_neighbour_total_to_cy:
  assumes "rect field" "shape field = (N, M)" "0 < N" "0 < M"
  shows "cy_neighbour_total (to_cy field) n m = word_of_int (neighbour_total field n m)"
  using assms
  by (simp add: cy_neighbour_total_def neighbour_total_def shape_to_cy neighbour_loop_unfold
      total_step get_to_cy_rect wrap_less down_of_int)

lemma bit_length_le: "a < 2 ^ k \<Longrightarrow> bit_length a \<le> k"
proof (induction k arbitrary: a)
  case 0
  then show ?case by (simp add: bit_length.simps)
next
  case (Suc k)
  then have "a div 2 < 2 ^ k"
    by (simp add: less_mult_imp_div_less mult.commute)
  then have "bit_length (a div 2) \<le> k"
    by (rule Suc.IH)
  then show ?case
    by (subst bit_length.simps) simp
qed

lemma float32_of_int_exact: "\<bar>x\<bar> < 2 ^ 24 \<Longrightarrow> float32_of_int x = x"
proof -
  assume "\<bar>x\<bar> < 2 ^ 24"
  then have "nat \<bar>x\<bar> < 2 ^ 24"
    by (simp add: nat_less_iff)
  then have "bit_length (nat \<bar>x\<bar>) \<le> 24"
    by (rule bit_length_le)
  then show ?thesis
    by (simp add: float32_of_int_def Let_def)
qed

lemma spins_get:
  assumes "spins field" "shape field = (N, M)" "a < N" "b < M"
  shows "get field a b = - 1 \<or> get field a b = 1"
proof -
  from assms have r: "rect field" and a: "a < length field"
    by (simp_all add: spins_def shape_def)
  with assms rect_row [of field a] have "b < length (field ! a)"
    by simp
  with a have "field ! a \<in> set field" "field ! a ! b \<in> set (field ! a)"
    by simp_all
  with assms(1) show ?thesis
    unfolding spins_def get_def by blast
qed

lemma spins_get_abs:
  fixes field :: field
  assumes "spins field" "shape field = (N, M)" "a < N" "b < M"
  shows "\<bar>get field a b\<bar> = 1"
  using spins_get [OF assms] by auto

lemma abs_sum8:
  "\<bar>a\<bar> = 1 \<Longrightarrow> \<bar>b\<bar> = 1 \<Longrightarrow> \<bar>c\<bar> = 1 \<Longrightarrow> \<bar>d\<bar> = 1 \<Longrightarrow> \<bar>e\<bar> = 1 \<Longrightarrow> \<bar>f\<bar> = 1 \<Longrightarrow>
   \<bar>g\<bar> = 1 \<Longrightarrow> \<bar>h\<bar> = 1 \<Longrightarrow> \<bar>a + b + c + d + e + f + g + h\<bar> \<le> (8::int)"
  by linarith

lemma spins_total_bound:
  assumes "spins field" "shape field = (N, M)" "0 < N" "0 < M"
  shows "\<bar>neighbour_total field n m\<bar> \<le> 8"
proof -
  have "\<bar>get field (nat (i mod int N)) (nat (j mod int M))\<bar> = 1" for i j
    using assms by (intro spins_get_abs [OF assms(1,2)] wrap_less)
  then show ?thesis
    using assms(2)
    by (simp only: neighbour_total_def neighbour_loop_unfold prod.case Let_def add_0)
      (rule abs_sum8)
qed

lemma spins_dE_bound:
  assumes "spins field" "shape field = (N, M)" "n < N" "m < M"
  shows "\<bar>local_dE field n m\<bar> \<le> 16"
proof -
  from assms have "\<bar>neighbour_total field n m\<bar> \<le> 8" "\<bar>get field n m\<bar> = 1"
    by (auto intro: spins_total_bound spins_get_abs)
  then show ?thesis
    by (simp add: local_dE_def abs_mult)
qed

lemma cy_local_dE_to_cy:
  assumes "spins field" "shape field = (N, M)" "n < N" "m < M"
  shows "cy_local_dE (to_cy field) n m = local_dE field n m"
proof -
  from assms have r: "rect field" and pos: "0 < N" "0 < M"
    by (auto simp: spins_def)
  have t: "\<bar>neighbour_total field n m\<bar> \<le> 8"
    using assms(1,2) pos by (rule spins_total_bound)
  have d: "\<bar>local_dE field n m\<bar> \<le> 16"
    using assms by (rule spins_dE_bound)
  have "scast (cy_neighbour_total (to_cy field) n m) =
        (word_of_int (neighbour_total field n m) :: 64 word)"
    using t by (simp add: cy_neighbour_total_to_cy [OF r assms(2) pos] scast_eq
        sint_sbintrunc' signed_take_bit_int_eq_self)
  then have "(2 * get (to_cy field) n m * scast (cy_neighbour_total (to_cy field) n m) :: 64 word) =
        word_of_int (local_dE field n m)"
    by (simp add: get_to_cy_rect [OF r assms(2-4)] local_dE_def)
  moreover have "sint (word_of_int (local_dE field n m) :: 64 word) = local_dE field n m"
    using d by (simp add: sint_sbintrunc' signed_take_bit_int_eq_self)
  ultimately show ?thesis
    using d by (simp add: cy_local_dE_def float32_of_int_exact)
qed

section \<open>The evaluator case by case\<close>

lemma to_cy_put:
  "n < length field \<Longrightarrow> to_cy (put field n m v) = put (to_cy field) n m (word_of_int v)"
  by (simp add: to_cy_def put_def map_update)

lemma cy_flip_to_cy:
  assumes "rect field" "shape field = (N, M)" "n < N" "m < M"
  shows "cy_flip (to_cy field) n m = to_cy (flip field n m)"
  using assms
  by (simp add: cy_flip_def flip_def get_to_cy_rect [OF assms] to_cy_put shape_def)

lemma ising_update_cases:
  assumes "shape field = (N, M)" "n < N" "m < M"
  shows "ising_update F field n m beta rng pos =
     (if local_dE field n m \<le> 0 then Inr (flip field n m, pos)
      else Inr (if np_gt F (np_exp F (np_mul F (np_of_int F (- local_dE field n m)) beta))
                     (rng pos)
                then flip field n m else field, pos + 1))"
  using assms by (simp add: ising_update_def Let_def)

lemma cy_ising_update_to_cy:
  assumes "spins field" "shape field = (N, M)" "n < N" "m < M"
  shows "cy_ising_update C (to_cy field) n m beta RAND_MAX rand pos =
     (if local_dE field n m \<le> 0 then Inr (to_cy (flip field n m), pos)
      else Inr (to_cy (if double_gt C
                               (double_mul C
                                  (double_exp C
                                     (double_of_single C
                                        (single_mul C (single_of_int C (- local_dE field n m))
                                           beta)))
                                  (double_of_int C (int RAND_MAX)))
                               (double_of_int C (int (rand pos)))
                       then flip field n m else field), pos + 1))"
proof -
  from assms have r: "rect field"
    by (simp add: spins_def)
  show ?thesis
    using assms(2-4)
    by (simp add: cy_ising_update_def shape_to_cy Let_def cy_local_dE_to_cy [OF assms]
        cy_flip_to_cy [OF r assms(2-4)])
qed

lemma get_flip:
  assumes "rect field" "shape field = (N, M)" "n < N" "m < M"
  shows "get (flip field n m) n' m' = (if n' = n \<and> m' = m then - get field n m else get field n' m')"
  using assms rect_row [of field n] by (simp add: flip_def get_put shape_def)

lemma spins_put:
  assumes "spins field" "v = - 1 \<or> v = 1"
  shows "spins (put field n m v)"
proof -
  have "w = - 1 \<or> w = 1" if "row \<in> set (put field n m v)" "w \<in> set row" for row w
  proof -
    from that(1) obtain i where i: "i < length field" "row = put field n m v ! i"
      by (auto simp: put_def in_set_conv_nth)
    show ?thesis
    proof (cases "i = n")
      case True
      with i have "row = (field ! n)[m := v]"
        by (simp add: put_def)
      with that(2) have "w = v \<or> w \<in> set (field ! n)"
        using set_update_subset_insert [of "field ! n" m v] by auto
      moreover have "field ! n \<in> set field"
        using i True by simp
      ultimately show ?thesis
        using assms unfolding spins_def by blast
    next
      case False
      with i have "row = field ! i" "field ! i \<in> set field"
        by (simp_all add: put_def)
      with that(2) assms(1) show ?thesis
        unfolding spins_def by blast
    qed
  qed
  with assms(1) show ?thesis
    unfolding spins_def by (auto intro: rect_put)
qed

lemma spins_flip:
  assumes "spins field" "shape field = (N, M)" "n < N" "m < M"
  shows "spins (flip field n m)"
  unfolding flip_def using spins_get [OF assms] by (intro spins_put assms(1)) auto

lemma shape_flip: "shape (flip field n m) = shape field"
  by (simp add: flip_def shape_put)

section \<open>The sweep as a fold over its sites\<close>

lemma fold_nested:
  "fold (\<lambda>x. fold (\<lambda>y. body x y) ys) xs s = fold (\<lambda>(x, y). body x y) (List.product xs ys) s"
  by (induction xs arbitrary: s) (simp_all add: fold_map comp_def)

lemma fold_record: "fold (\<lambda>(n, m) visited. visited @ [(n, m)]) ps tr = tr @ ps"
  by (induction ps arbitrary: tr) auto

lemma pass_fold:
  "pass body n_offset m_offset N M s =
     fold (\<lambda>(n, m). body n m) (class_sites N M n_offset m_offset) s"
  by (simp add: pass_def class_sites_def fold_nested)

lemma sweep_fold:
  "sweep body N M s =
     fold (\<lambda>(n, m). body n m)
       (class_sites N M 0 0 @ class_sites N M 0 1 @ class_sites N M 1 0 @ class_sites N M 1 1) s"
  by (simp add: sweep_def pass_fold)

lemma visit_order_classes:
  "visit_order N M =
     class_sites N M 0 0 @ class_sites N M 0 1 @ class_sites N M 1 0 @ class_sites N M 1 1"
  unfolding visit_order_def sweep_fold by (simp only: fold_record append_Nil)

lemma sweep_visit_order:
  "sweep body N M s = fold (\<lambda>(n, m). body n m) (visit_order N M) s"
  by (simp only: sweep_fold visit_order_classes)

lemma range2_filter: "range2 a N = filter (\<lambda>k. k mod 2 = a mod 2) [a..<N]"
proof (induction a N rule: range2.induct)
  case (1 a N)
  show ?case
  proof (cases "a < N")
    case True
    have ne: "Suc a mod 2 \<noteq> a mod 2"
      by presburger
    have ee: "(k mod 2 = (a + 2) mod 2) = (k mod 2 = a mod 2)" for k
      by simp
    have rest: "filter (\<lambda>k. k mod 2 = a mod 2) [Suc a..<N] = range2 (a + 2) N"
    proof (cases "Suc a < N")
      case True
      then have "[Suc a..<N] = Suc a # [a + 2..<N]"
        by (simp add: upt_conv_Cons)
      then show ?thesis
        using 1 [OF \<open>a < N\<close>] ne by (simp add: ee)
    next
      case False
      then show ?thesis
        by (simp add: range2.simps)
    qed
    have "range2 a N = a # range2 (a + 2) N"
      using True by (subst range2.simps) simp
    also have "\<dots> = filter (\<lambda>k. k mod 2 = a mod 2) (a # [Suc a..<N])"
      by (simp add: rest)
    also have "a # [Suc a..<N] = [a..<N]"
      using True by (simp add: upt_conv_Cons)
    finally show ?thesis .
  next
    case False
    then show ?thesis
      by (simp add: range2.simps)
  qed
qed

lemma range2_even: "range2 0 N = filter (\<lambda>k. k mod 2 = 0) [0..<N]"
  by (simp add: range2_filter)

lemma range2_odd: "range2 1 N = filter (\<lambda>k. k mod 2 = 1) [0..<N]"
proof (cases N)
  case 0
  then show ?thesis by (simp add: range2_filter)
next
  case (Suc k)
  then have "[0..<N] = 0 # [1..<N]"
    by (simp add: upt_conv_Cons)
  then show ?thesis
    by (simp add: range2_filter)
qed

lemma filter_product:
  "filter (\<lambda>(x, y). P x \<and> Q y) (List.product xs ys) = List.product (filter P xs) (filter Q ys)"
  by (induction xs) (simp_all add: filter_map comp_def)

lemma range2_odd_Suc: "range2 (Suc 0) N = filter (\<lambda>k. k mod 2 = Suc 0) [0..<N]"
  using range2_odd [of N] by simp

lemma class_sites_filter:
  assumes "p < 2" "q < 2"
  shows "class_sites N M p q =
     filter (\<lambda>(n, m). n mod 2 = p \<and> m mod 2 = q) (List.product [0..<N] [0..<M])"
proof -
  from assms have "p = 0 \<or> p = 1" "q = 0 \<or> q = 1"
    by auto
  then show ?thesis
    unfolding class_sites_def filter_product
    by (auto simp: range2_even range2_odd_Suc)
qed

lemma visit_order_filter:
  "visit_order N M =
     concat (map (\<lambda>(p, q). filter (\<lambda>(n, m). n mod 2 = p \<and> m mod 2 = q)
                                (List.product [0..<N] [0..<M]))
                 [(0, 0), (0, 1), (1, 0), (1, 1)])"
  by (simp add: visit_order_classes class_sites_filter)

lemma set_visit_order: "set (visit_order N M) = {0..<N} \<times> {0..<M}"
proof -
  have "n mod 2 = 0 \<or> n mod 2 = 1" for n :: nat
    by presburger
  then show ?thesis
    unfolding visit_order_filter by (auto simp del: One_nat_def)
qed


lemma ising_step_fold:
  "shape field = (N, M) \<Longrightarrow>
   ising_step F field beta rng pos =
     fold (\<lambda>(n, m). visit F beta rng n m) (visit_order N M) (Inr (field, pos))"
  by (simp add: ising_step_def sweep_visit_order)

lemma cy_ising_step_fold:
  "shape field = (N, M) \<Longrightarrow>
   cy_ising_step C field beta RAND_MAX rand pos =
     fold (\<lambda>(n, m). cy_visit C beta RAND_MAX rand n m) (visit_order N M) (Inr (field, pos))"
  by (simp add: cy_ising_step_def sweep_visit_order)

section \<open>Folding the evaluator over a list of sites\<close>

lemma fold_Inl:
  assumes "\<And>n m e. vis n m (Inl e) = Inl e"
  shows "fold (\<lambda>(n, m). vis n m) ps (Inl e) = Inl e"
  by (induction ps) (auto simp: assms)

lemma fold_frame:
  fixes vis :: "nat \<Rightarrow> nat \<Rightarrow> error + 'a array2 \<times> nat \<Rightarrow> error + 'a array2 \<times> nat"
  assumes propagate: "\<And>n m e. vis n m (Inl e) = Inl e"
    and frame: "\<And>n m f p f' p'. vis n m (Inr (f, p)) = Inr (f', p') \<Longrightarrow> (a, b) \<noteq> (n, m) \<Longrightarrow>
                  get f' a b = get f a b"
    and run: "fold (\<lambda>(n, m). vis n m) ps (Inr (f, p)) = Inr (f', p')"
    and out: "(a, b) \<notin> set ps"
  shows "get f' a b = get f a b"
  using run out
proof (induction ps arbitrary: f p)
  case Nil
  then show ?case by simp
next
  case (Cons s ps)
  obtain n m where s: "s = (n, m)"
    by (cases s)
  show ?case
  proof (cases "vis n m (Inr (f, p))")
    case (Inl e)
    with Cons.prems(1) s show ?thesis
      by (simp add: fold_Inl [of vis, OF propagate])
  next
    case (Inr st)
    obtain f1 p1 where st: "st = (f1, p1)"
      by (cases st)
    from Cons.prems(2) s have ne: "(a, b) \<noteq> (n, m)" and rest: "(a, b) \<notin> set ps"
      by auto
    have "get f' a b = get f1 a b"
      using Cons.prems(1) s Inr st rest by (intro Cons.IH [of f1 p1]) simp_all
    also have "\<dots> = get f a b"
      using Inr st ne by (intro frame [of n m f p f1 p1]) simp_all
    finally show ?thesis .
  qed
qed

lemma fold_invariant:
  fixes vis :: "nat \<Rightarrow> nat \<Rightarrow> error + 'a array2 \<times> nat \<Rightarrow> error + 'a array2 \<times> nat"
  assumes step: "\<And>n m f p. I f \<Longrightarrow> (n, m) \<in> S \<Longrightarrow>
                   \<exists>f' p'. vis n m (Inr (f, p)) = Inr (f', p') \<and> I f'"
    and init: "I f" and sub: "set ps \<subseteq> S"
  shows "\<exists>f' p'. fold (\<lambda>(n, m). vis n m) ps (Inr (f, p)) = Inr (f', p') \<and> I f'"
  using init sub
proof (induction ps arbitrary: f p)
  case Nil
  then show ?case by simp
next
  case (Cons s ps)
  obtain n m where s: "s = (n, m)"
    by (cases s)
  with Cons.prems have "(n, m) \<in> S"
    by simp
  with step [OF Cons.prems(1)] obtain f1 p1
    where 1: "vis n m (Inr (f, p)) = Inr (f1, p1)" "I f1"
    by blast
  from Cons.IH [OF 1(2), of p1] Cons.prems(2) 1(1) s show ?case
    by simp
qed

lemma visit_Inl: "visit F beta rng n m (Inl e) = Inl e"
  by (simp add: visit_def)

lemma cy_visit_Inl: "cy_visit C beta RAND_MAX rand n m (Inl e) = Inl e"
  by (simp add: cy_visit_def)

lemma cy_ising_update_cases:
  assumes "shape field = (N, M)" "n < N" "m < M"
  shows "cy_ising_update C field n m beta RAND_MAX rand pos =
     (if cy_local_dE field n m \<le> 0 then Inr (cy_flip field n m, pos)
      else Inr (if double_gt C
                        (double_mul C
                           (double_exp C
                              (double_of_single C
                                 (single_mul C (single_of_int C (- cy_local_dE field n m)) beta)))
                           (double_of_int C (int RAND_MAX)))
                        (double_of_int C (int (rand pos)))
                then cy_flip field n m else field, pos + 1))"
  using assms by (simp add: cy_ising_update_def Let_def)

lemma ising_update_result:
  assumes "ising_update F field n m beta rng pos = Inr (field', pos')"
  shows "(field' = field \<or> field' = flip field n m) \<and> (pos' = pos \<or> pos' = pos + 1)
         \<and> n < fst (shape field) \<and> m < snd (shape field)"
  using assms by (auto simp: ising_update_def Let_def split: if_splits prod.splits)

lemma cy_ising_update_result:
  assumes "cy_ising_update C field n m beta RAND_MAX rand pos = Inr (field', pos')"
  shows "(field' = field \<or> field' = cy_flip field n m) \<and> (pos' = pos \<or> pos' = pos + 1)
         \<and> n < fst (shape field) \<and> m < snd (shape field)"
  using assms by (auto simp: cy_ising_update_def Let_def split: if_splits prod.splits)

lemma visit_frame:
  assumes "visit F beta rng n m (Inr (f, p)) = Inr (f', p')" "(a, b) \<noteq> (n, m)"
  shows "get f' a b = get f a b"
  using ising_update_result [of F f n m beta rng p f' p'] assms
  by (auto simp: visit_def flip_def get_put_other)

lemma cy_visit_frame:
  assumes "cy_visit C beta RAND_MAX rand n m (Inr (f, p)) = Inr (f', p')" "(a, b) \<noteq> (n, m)"
  shows "get f' a b = get f a b"
  using cy_ising_update_result [of C f n m beta RAND_MAX rand p f' p'] assms
  by (auto simp: cy_visit_def cy_flip_def get_put_other)

lemma spins_negate:
  fixes field :: "'a::ring_1 array2"
  assumes "spins field" "shape field = (N, M)" "n < N" "m < M"
  shows "spins (put field n m (get field n m * (- 1)))"
  using spins_get [OF assms] by (intro spins_put assms(1)) auto

lemma visit_spins:
  assumes "spins f \<and> shape f = (N, M)" "(n, m) \<in> {0..<N} \<times> {0..<M}"
  shows "\<exists>f' p'. visit F beta rng n m (Inr (f, p)) = Inr (f', p') \<and> (spins f' \<and> shape f' = (N, M))"
  using assms spins_negate [of f N M n m]
  by (auto simp: visit_def ising_update_cases flip_def shape_put)

lemma cy_visit_spins:
  assumes "spins f \<and> shape f = (N, M)" "(n, m) \<in> {0..<N} \<times> {0..<M}"
  shows "\<exists>f' p'. cy_visit C beta RAND_MAX rand n m (Inr (f, p)) = Inr (f', p')
           \<and> (spins f' \<and> shape f' = (N, M))"
  using assms spins_negate [of f N M n m]
  by (auto simp: cy_visit_def cy_ising_update_cases cy_flip_def shape_put)

lemma ising_step_spins:
  assumes "spins field" "shape field = (N, M)"
  shows "\<exists>field' pos'. ising_step F field beta rng pos = Inr (field', pos')
           \<and> (spins field' \<and> shape field' = (N, M))"
  unfolding ising_step_fold [OF assms(2)]
proof (rule fold_invariant [where S = "{0..<N} \<times> {0..<M}"])
  show "\<exists>f' p'. visit F beta rng n m (Inr (f, p)) = Inr (f', p') \<and> (spins f' \<and> shape f' = (N, M))"
    if "spins f \<and> shape f = (N, M)" "(n, m) \<in> {0..<N} \<times> {0..<M}" for n m f p
    using that by (rule visit_spins)
  show "spins field \<and> shape field = (N, M)"
    using assms by simp
  show "set (visit_order N M) \<subseteq> {0..<N} \<times> {0..<M}"
    by (simp add: set_visit_order)
qed

lemma cy_ising_step_spins:
  assumes "spins field" "shape field = (N, M)"
  shows "\<exists>field' pos'. cy_ising_step C field beta RAND_MAX rand pos = Inr (field', pos')
           \<and> (spins field' \<and> shape field' = (N, M))"
  unfolding cy_ising_step_fold [OF assms(2)]
proof (rule fold_invariant [where S = "{0..<N} \<times> {0..<M}"])
  show "\<exists>f' p'. cy_visit C beta RAND_MAX rand n m (Inr (f, p)) = Inr (f', p') \<and> (spins f' \<and> shape f' = (N, M))"
    if "spins f \<and> shape f = (N, M)" "(n, m) \<in> {0..<N} \<times> {0..<M}" for n m f p
    using that by (rule cy_visit_spins)
  show "spins field \<and> shape field = (N, M)"
    using assms by simp
  show "set (visit_order N M) \<subseteq> {0..<N} \<times> {0..<M}"
    by (simp add: set_visit_order)
qed

lemma ising_steps_spins:
  assumes "spins field" "shape field = (N, M)"
  shows "\<exists>field' pos'. ising_steps F K beta rng (Inr (field, pos)) = Inr (field', pos')
           \<and> spins field' \<and> shape field' = (N, M)"
  using assms
proof (induction K arbitrary: field pos)
  case 0
  then show ?case by simp
next
  case (Suc K)
  from ising_step_spins [OF Suc.prems, of F beta rng pos] obtain f1 p1
    where "ising_step F field beta rng pos = Inr (f1, p1)" "spins f1" "shape f1 = (N, M)"
    by blast
  with Suc.IH [of f1 p1] show ?case
    by simp
qed

lemma cy_ising_steps_spins:
  assumes "spins field" "shape field = (N, M)"
  shows "\<exists>field' pos'. cy_ising_steps C K beta RAND_MAX rand (Inr (field, pos)) = Inr (field', pos')
           \<and> spins field' \<and> shape field' = (N, M)"
  using assms
proof (induction K arbitrary: field pos)
  case 0
  then show ?case by simp
next
  case (Suc K)
  from cy_ising_step_spins [OF Suc.prems, of C beta RAND_MAX rand pos] obtain f1 p1
    where "cy_ising_step C field beta RAND_MAX rand pos = Inr (f1, p1)" "spins f1"
      "shape f1 = (N, M)"
    by blast
  with Suc.IH [of f1 p1] show ?case
    by simp
qed

section \<open>The claims about the sweep order\<close>



section \<open>The claims about the evaluator\<close>

lemma shape_3x3: "shape [[a, b, c], [d, e, f], [g, h, i]] = (3, 3)"
  by (simp add: shape_def)

lemma rect_3x3: "rect [[a, b, c], [d, e, f], [g, h, i]]"
  by (simp add: rect_def shape_def)


lemma local_dE_3x3_hole: "local_dE [[1, 1, 1], [1, - 1, 1], [1, 1, 1]] 1 1 = - 16"
  by (simp add: local_dE_def neighbour_total_def shape_3x3 neighbour_loop_unfold get_def)





lemma sint_cy_neighbour_total:
  assumes "spins field" "shape field = (N, M)" "0 < N" "0 < M"
  shows "sint (cy_neighbour_total (to_cy field) n m) = neighbour_total field n m"
proof -
  from assms have r: "rect field"
    by (simp add: spins_def)
  have "\<bar>neighbour_total field n m\<bar> \<le> 8"
    using assms by (rule spins_total_bound)
  then show ?thesis
    by (simp add: cy_neighbour_total_to_cy [OF r assms(2-4)] sint_sbintrunc'
        signed_take_bit_int_eq_self)
qed

lemma sint_cy_product:
  assumes "spins field" "shape field = (N, M)" "n < N" "m < M"
  shows "sint (2 * get (to_cy field) n m * scast (cy_neighbour_total (to_cy field) n m) :: 64 word)
         = local_dE field n m"
proof -
  from assms have r: "rect field" and pos: "0 < N" "0 < M"
    by (auto simp: spins_def)
  have t: "\<bar>neighbour_total field n m\<bar> \<le> 8"
    using assms(1,2) pos by (rule spins_total_bound)
  have d: "\<bar>local_dE field n m\<bar> \<le> 16"
    using assms by (rule spins_dE_bound)
  have "scast (cy_neighbour_total (to_cy field) n m) =
        (word_of_int (neighbour_total field n m) :: 64 word)"
    using t by (simp add: cy_neighbour_total_to_cy [OF r assms(2) pos] scast_eq
        sint_sbintrunc' signed_take_bit_int_eq_self)
  then have "(2 * get (to_cy field) n m * scast (cy_neighbour_total (to_cy field) n m) :: 64 word) =
        word_of_int (local_dE field n m)"
    by (simp add: get_to_cy_rect [OF r assms(2-4)] local_dE_def)
  moreover have "sint (word_of_int (local_dE field n m) :: 64 word) = local_dE field n m"
    using d by (simp add: sint_sbintrunc' signed_take_bit_int_eq_self)
  ultimately show ?thesis
    by simp
qed

lemma spins_3x3_hole: "spins [[1, 1, 1], [1, - 1, 1], [1, 1, 1 :: int]]"
  by (simp add: spins_def rect_3x3)

text \<open>
  Claim C9. On a lattice of spins the Cython evaluator, run on the int64 array that holds
  the same spins, computes the same neighbour sum as the Python evaluator; the 64-bit
  product \<open>2 * field[n, m] * total\<close> is the Python \<open>dE\<close>, the conversion to single
  precision leaves it unchanged, so the Cython \<open>dE\<close> is the Python \<open>dE\<close>; and when
  \<open>dE \<le> 0\<close> both flip the spin and neither draws a sample, whatever their parameters
  and random sources are.
\<close>

theorem cython_agrees_with_python:
  assumes "spins field" "shape field = (N, M)" "n < N" "m < M"
  shows "sint (cy_neighbour_total (to_cy field) n m) = neighbour_total field n m
       \<and> sint (2 * get (to_cy field) n m * scast (cy_neighbour_total (to_cy field) n m) :: 64 word)
           = local_dE field n m
       \<and> float32_of_int (local_dE field n m) = local_dE field n m
       \<and> cy_local_dE (to_cy field) n m = local_dE field n m
       \<and> (local_dE field n m \<le> 0 \<longrightarrow>
            ising_update F field n m beta rng pos = Inr (flip field n m, pos)
            \<and> cy_ising_update C (to_cy field) n m cbeta RAND_MAX rand cpos =
                Inr (to_cy (flip field n m), cpos))"
proof -
  from assms have pos: "0 < N" "0 < M"
    by auto
  have "\<bar>local_dE field n m\<bar> \<le> 16"
    using assms by (rule spins_dE_bound)
  then have "float32_of_int (local_dE field n m) = local_dE field n m"
    by (intro float32_of_int_exact) simp
  then show ?thesis
    using sint_cy_neighbour_total [OF assms(1,2) pos] sint_cy_product [OF assms]
    by (simp add: cy_local_dE_to_cy [OF assms] cy_ising_update_to_cy [OF assms]
        ising_update_cases [OF assms(2-4)])
qed

theorem cython_agrees_with_python_witness:
  "spins [[1, 1, 1], [1, - 1, 1], [1, 1, 1 :: int]]
   \<and> cy_local_dE (to_cy [[1, 1, 1], [1, - 1, 1], [1, 1, 1]]) 1 1 = - 16
   \<and> cy_ising_update exact_c (to_cy [[1, 1, 1], [1, - 1, 1], [1, 1, 1]]) 1 1 0 32767 (\<lambda>i. 7) 3 =
       Inr (to_cy [[1, 1, 1], [1, 1, 1], [1, 1, 1]], 3)"
proof -
  show ?thesis
    using local_dE_3x3_hole spins_3x3_hole cython_agrees_with_python
      [where field = "[[1, 1, 1], [1, - 1, 1], [1, 1, 1]]" and N = 3 and M = 3
        and n = 1 and m = 1 and F = exact_np and C = exact_c and cbeta = 0
        and RAND_MAX = 32767 and rand = "\<lambda>i. 7" and cpos = 3,
        OF spins_3x3_hole shape_3x3]
    by (simp add: flip_def put_def get_def)
qed

text \<open>
  Claim C2. The evaluator's \<open>dE\<close> at a site \<open>(n, m)\<close> is twice the site's spin times the
  sum of the eight cells at the offsets \<open>{-1, 0, 1} \<times> {-1, 0, 1}\<close> without \<open>(0, 0)\<close>, the
  row index wrapped modulo \<open>N\<close> and the column index modulo \<open>M\<close>. At site \<open>(0, 0)\<close> of
  a lattice of at least three rows and three columns the cells read are
  \<open>(N-1, M-1)\<close>, \<open>(N-1, 0)\<close>, \<open>(N-1, 1)\<close>, \<open>(0, M-1)\<close>, \<open>(0, 1)\<close>, \<open>(1, M-1)\<close>,
  \<open>(1, 0)\<close>, \<open>(1, 1)\<close>. On a lattice of spins the Cython evaluator computes the same value.
\<close>

theorem local_dE_neighbour_sum:
  assumes "shape field = (N, M)"
  shows "local_dE field n m =
           2 * get field n m *
           (\<Sum>(di, dj) \<in> {- 1, 0, 1} \<times> {- 1, 0, 1} - {(0, 0)}.
               get field (nat ((int n + di) mod int N)) (nat ((int m + dj) mod int M)))
         \<and> (3 \<le> N \<and> 3 \<le> M \<longrightarrow>
              neighbour_cells N M 0 0 =
                [(N - 1, M - 1), (N - 1, 0), (N - 1, 1), (0, M - 1), (0, 1),
                 (1, M - 1), (1, 0), (1, 1)]
              \<and> neighbour_total field 0 0 =
                  get field (N - 1) (M - 1) + get field (N - 1) 0 + get field (N - 1) 1 +
                  get field 0 (M - 1) + get field 0 1 +
                  get field 1 (M - 1) + get field 1 0 + get field 1 1)
         \<and> (spins field \<and> n < N \<and> m < M \<longrightarrow>
              cy_local_dE (to_cy field) n m =
                2 * get field n m *
                (\<Sum>(di, dj) \<in> {- 1, 0, 1} \<times> {- 1, 0, 1} - {(0, 0)}.
                    get field (nat ((int n + di) mod int N)) (nat ((int m + dj) mod int M))))"
proof -
  have "neighbour_total field 0 0 =
          get field (N - 1) (M - 1) + get field (N - 1) 0 + get field (N - 1) 1 +
          get field 0 (M - 1) + get field 0 1 +
          get field 1 (M - 1) + get field 1 0 + get field 1 1"
    if "3 \<le> N" "3 \<le> M"
    using neighbour_total_cells [OF assms, of 0 0] neighbour_cells_origin [OF that]
    by simp
  moreover have "cy_local_dE (to_cy field) n m = local_dE field n m"
    if "spins field" "n < N" "m < M"
    using that(1) assms that(2,3) by (rule cy_local_dE_to_cy)
  ultimately show ?thesis
    using neighbour_total_sum [OF assms] neighbour_cells_origin
    by (simp add: local_dE_def)
qed

theorem local_dE_neighbour_sum_witness:
  "shape [[- 1, 1, 1], [1, 1, 1], [1, 1, 1 :: int]] = (3, 3)
   \<and> local_dE [[- 1, 1, 1], [1, 1, 1], [1, 1, 1]] 0 0 = - 16
   \<and> neighbour_cells 3 3 0 0 = [(2, 2), (2, 0), (2, 1), (0, 2), (0, 1), (1, 2), (1, 0), (1, 1)]"
  using local_dE_neighbour_sum
    [where field = "[[- 1, 1, 1], [1, 1, 1], [1, 1, 1]]" and N = 3 and M = 3 and n = 0
      and m = 0, OF shape_3x3, unfolded offsets8]
  by (simp add: shape_3x3 get_def)

section \<open>The claims about a run\<close>

text \<open>
  Claim C4. A lattice whose cells are all \<open>-1\<close> or \<open>+1\<close> is still such a lattice, of the
  same shape, after any number \<open>K\<close> of steps, and the \<open>K\<close> steps do return a lattice: the
  only write is the multiplication of a spin by \<open>-1\<close>. This holds of the Python kernel and
  of the Cython kernel on 64-bit cells.
\<close>

theorem spins_preserved:
  assumes "spins field" "spins cfield"
  shows "(\<exists>field' pos'. ising_steps F K beta rng (Inr (field, pos)) = Inr (field', pos')
            \<and> spins field' \<and> shape field' = shape field)
       \<and> (\<exists>cfield' cpos'.
            cy_ising_steps C K cbeta RAND_MAX rand (Inr (cfield, cpos)) = Inr (cfield', cpos')
            \<and> spins cfield' \<and> shape cfield' = shape cfield)"
  using ising_steps_spins [OF assms(1), of "fst (shape field)" "snd (shape field)" F K beta rng pos]
    cy_ising_steps_spins [OF assms(2), of "fst (shape cfield)" "snd (shape cfield)" C K cbeta
      RAND_MAX rand cpos]
  by simp

theorem spins_preserved_witness:
  "spins [[1, 1, 1], [1, - 1, 1], [1, 1, 1 :: int]]
   \<and> spins [[1, 1, 1], [1, - 1, 1], [1, 1, 1 :: 64 word]]
   \<and> (\<exists>field' pos'.
        ising_steps exact_np 100 0 (\<lambda>i. 1 / 2)
          (Inr ([[1, 1, 1], [1, - 1, 1], [1, 1, 1]], 0)) =
        Inr (field', pos') \<and> spins field' \<and> shape field' = (3, 3))"
proof -
  have c: "spins [[1, 1, 1], [1, - 1, 1], [1, 1, 1 :: 64 word]]"
    by (simp add: spins_def rect_3x3)
  show ?thesis
    using c spins_3x3_hole
      spins_preserved [OF spins_3x3_hole c, where F = exact_np and K = 100 and beta = 0
        and rng = "\<lambda>i. 1 / 2" and pos = 0 and C = exact_c]
    by (simp add: shape_3x3)
qed

lemma shape_visit:
  assumes "visit F beta rng n m (Inr (f, p)) = Inr (f', p')"
  shows "shape f' = shape f"
  using ising_update_result [of F f n m beta rng p f' p'] assms
  by (auto simp: visit_def shape_flip)

lemma class_sites_parity:
  assumes "p < 2" "q < 2" "(a, b) \<in> set (class_sites N M p q)"
  shows "a mod 2 = p \<and> b mod 2 = q \<and> a < N \<and> b < M"
  using assms by (auto simp: class_sites_filter)

lemma range2_0_2: "range2 0 2 = [0]"
  by (simp add: range2.simps)

lemma update_2x2:
  "ising_update exact_np [[1, 1], [1, 1]] 0 0 0 (\<lambda>i. 1 / 2) 0 = Inr ([[- 1, 1], [1, 1]], 1)"
  by (simp add: ising_update_def shape_def local_dE_def neighbour_total_def
      neighbour_loop_unfold get_def flip_def put_def exact_np_def)

text \<open>
  Claim C8. A call of the evaluator at \<open>(n, m)\<close> leaves every cell other than \<open>(n, m)\<close> as
  it was, and keeps the shape. Hence the pass over one parity class \<open>(p, q)\<close> leaves every
  cell of the other three classes as it was; for \<open>(p, q) = (0, 0)\<close> these are the cells of
  the classes \<open>(0, 1)\<close>, \<open>(1, 0)\<close> and \<open>(1, 1)\<close>.
\<close>

theorem evaluator_touches_one_cell:
  "(ising_update F field n m beta rng pos = Inr (field', pos') \<longrightarrow>
      (\<forall>a b. (a, b) \<noteq> (n, m) \<longrightarrow> get field' a b = get field a b) \<and> shape field' = shape field)
   \<and> (cy_ising_update C cfield n m cbeta RAND_MAX rand pos = Inr (cfield', pos') \<longrightarrow>
      (\<forall>a b. (a, b) \<noteq> (n, m) \<longrightarrow> get cfield' a b = get cfield a b)
      \<and> shape cfield' = shape cfield)
   \<and> (p < 2 \<and> q < 2 \<and> pass (visit F beta rng) p q N M (Inr (field, pos)) = Inr (field'', pos'') \<longrightarrow>
      (\<forall>a b. (a mod 2, b mod 2) \<noteq> (p, q) \<longrightarrow> get field'' a b = get field a b))
   \<and> (p < 2 \<and> q < 2
       \<and> pass (cy_visit C cbeta RAND_MAX rand) p q N M (Inr (cfield, pos)) = Inr (cfield'', pos'') \<longrightarrow>
      (\<forall>a b. (a mod 2, b mod 2) \<noteq> (p, q) \<longrightarrow> get cfield'' a b = get cfield a b))"
proof -
  have 1: "(\<forall>a b. (a, b) \<noteq> (n, m) \<longrightarrow> get field' a b = get field a b) \<and> shape field' = shape field"
    if "ising_update F field n m beta rng pos = Inr (field', pos')"
    using ising_update_result [OF that] by (auto simp: flip_def get_put_other shape_put)
  have 2: "(\<forall>a b. (a, b) \<noteq> (n, m) \<longrightarrow> get cfield' a b = get cfield a b)
      \<and> shape cfield' = shape cfield"
    if "cy_ising_update C cfield n m cbeta RAND_MAX rand pos = Inr (cfield', pos')"
    using cy_ising_update_result [OF that] by (auto simp: cy_flip_def get_put_other shape_put)
  have 3: "get field'' a b = get field a b"
    if "p < 2" "q < 2" "pass (visit F beta rng) p q N M (Inr (field, pos)) = Inr (field'', pos'')"
      "(a mod 2, b mod 2) \<noteq> (p, q)" for a b
  proof (rule fold_frame [where vis = "visit F beta rng"])
    show "visit F beta rng n m (Inl e) = Inl e" for n m e
      by (rule visit_Inl)
    show "get f' a b = get f a b"
      if "visit F beta rng n m (Inr (f, p)) = Inr (f', p')" "(a, b) \<noteq> (n, m)" for n m f p f' p'
      using that by (rule visit_frame)
    show "fold (\<lambda>(n, m). visit F beta rng n m) (class_sites N M p q) (Inr (field, pos)) =
          Inr (field'', pos'')"
      using that(3) by (simp add: pass_fold)
    show "(a, b) \<notin> set (class_sites N M p q)"
      using class_sites_parity [OF that(1,2), of a b N M] that(4) by auto
  qed
  have 4: "get cfield'' a b = get cfield a b"
    if "p < 2" "q < 2"
      "pass (cy_visit C cbeta RAND_MAX rand) p q N M (Inr (cfield, pos)) = Inr (cfield'', pos'')"
      "(a mod 2, b mod 2) \<noteq> (p, q)" for a b
  proof (rule fold_frame [where vis = "cy_visit C cbeta RAND_MAX rand"])
    show "cy_visit C cbeta RAND_MAX rand n m (Inl e) = Inl e" for n m e
      by (rule cy_visit_Inl)
    show "get f' a b = get f a b"
      if "cy_visit C cbeta RAND_MAX rand n m (Inr (f, p)) = Inr (f', p')" "(a, b) \<noteq> (n, m)"
      for n m f p f' p'
      using that by (rule cy_visit_frame)
    show "fold (\<lambda>(n, m). cy_visit C cbeta RAND_MAX rand n m) (class_sites N M p q)
            (Inr (cfield, pos)) = Inr (cfield'', pos'')"
      using that(3) by (simp add: pass_fold)
    show "(a, b) \<notin> set (class_sites N M p q)"
      using class_sites_parity [OF that(1,2), of a b N M] that(4) by auto
  qed
  from 1 2 3 4 show ?thesis
    by blast
qed

theorem evaluator_touches_one_cell_witness:
  "ising_update exact_np [[1, 1], [1, 1]] 0 0 0 (\<lambda>i. 1 / 2) 0 = Inr ([[- 1, 1], [1, 1]], 1)
   \<and> pass (visit exact_np 0 (\<lambda>i. 1 / 2)) 0 0 2 2 (Inr ([[1, 1], [1, 1]], 0)) =
       Inr ([[- 1, 1], [1, 1]], 1)
   \<and> get [[- 1, 1], [1, 1]] 0 1 = get [[1, 1], [1, 1 :: int]] 0 1
   \<and> get [[- 1, 1], [1, 1]] 1 1 = get [[1, 1], [1, 1 :: int]] 1 1
   \<and> shape [[- 1, 1], [1, 1 :: int]] = shape [[1, 1], [1, 1 :: int]]"
proof -
  have p: "pass (visit exact_np 0 (\<lambda>i. 1 / 2)) 0 0 2 2 (Inr ([[1, 1], [1, 1]], 0)) =
           Inr ([[- 1, 1], [1, 1]], 1)"
    by (simp add: pass_def range2_0_2 visit_def update_2x2)
  show ?thesis
    using update_2x2 p
      evaluator_touches_one_cell
      [where F = exact_np and C = exact_c and field = "[[1, 1], [1, 1]]" and n = 0 and m = 0
        and beta = 0
        and rng = "\<lambda>i. 1 / 2" and pos = 0 and field' = "[[- 1, 1], [1, 1]]" and pos' = 1
        and p = 0 and q = 0 and N = 2 and M = 2 and field'' = "[[- 1, 1], [1, 1]]"
        and pos'' = 1]
    by simp
qed

lemma visit_same_sample:
  "rng1 p = rng2 p \<Longrightarrow> visit F beta rng1 n m (Inr (f, p)) = visit F beta rng2 n m (Inr (f, p))"
  by (simp add: visit_def ising_update_def Let_def split: prod.splits)

lemma visit_pos_mono:
  assumes "visit F beta rng n m (Inr (f, p)) = Inr (f', p')"
  shows "p \<le> p'"
  using ising_update_result [of F f n m beta rng p f' p'] assms by (auto simp: visit_def)

lemma fold_visit_pos_mono:
  "fold (\<lambda>(n, m). visit F beta rng n m) ps (Inr (f, p)) = Inr (f', p') \<Longrightarrow> p \<le> p'"
proof (induction ps arbitrary: f p)
  case Nil
  then show ?case by simp
next
  case (Cons s ps)
  obtain n m where s: "s = (n, m)"
    by (cases s)
  show ?case
  proof (cases "visit F beta rng n m (Inr (f, p))")
    case (Inl e)
    with Cons.prems s show ?thesis
      by (simp add: fold_Inl [of "visit F beta rng", OF visit_Inl])
  next
    case (Inr st)
    obtain f1 p1 where st: "st = (f1, p1)"
      by (cases st)
    from Inr st have "p \<le> p1"
      by (auto dest: visit_pos_mono)
    moreover have "p1 \<le> p'"
      using Cons.prems s Inr st by (intro Cons.IH [of f1 p1]) simp
    ultimately show ?thesis
      by simp
  qed
qed

lemma fold_visit_same_stream:
  assumes "\<forall>i\<ge>p. rng1 i = rng2 i"
  shows "fold (\<lambda>(n, m). visit F beta rng1 n m) ps (Inr (f, p)) =
         fold (\<lambda>(n, m). visit F beta rng2 n m) ps (Inr (f, p))"
  using assms
proof (induction ps arbitrary: f p)
  case Nil
  then show ?case by simp
next
  case (Cons s ps)
  obtain n m where s: "s = (n, m)"
    by (cases s)
  from Cons.prems have eq: "visit F beta rng1 n m (Inr (f, p)) = visit F beta rng2 n m (Inr (f, p))"
    by (intro visit_same_sample) simp
  show ?case
  proof (cases "visit F beta rng1 n m (Inr (f, p))")
    case (Inl e)
    with eq have "visit F beta rng2 n m (Inr (f, p)) = Inl e"
      by simp
    with Inl s show ?thesis
      by (simp add: fold_Inl [of "visit F beta rng1", OF visit_Inl]
          fold_Inl [of "visit F beta rng2", OF visit_Inl])
  next
    case (Inr st)
    obtain f1 p1 where st: "st = (f1, p1)"
      by (cases st)
    from Inr st have "p \<le> p1"
      by (auto dest: visit_pos_mono)
    with Cons.prems have "\<forall>i\<ge>p1. rng1 i = rng2 i"
      by simp
    moreover from eq Inr st have "visit F beta rng2 n m (Inr (f, p)) = Inr (f1, p1)"
      by simp
    ultimately show ?thesis
      using Cons.IH [of p1 f1] Inr st s by simp
  qed
qed

lemma ising_step_same_stream:
  "\<forall>i\<ge>pos. rng1 i = rng2 i \<Longrightarrow> ising_step F field beta rng1 pos = ising_step F field beta rng2 pos"
  by (simp add: ising_step_fold [OF surjective_pairing] fold_visit_same_stream)

lemma ising_step_pos_mono:
  "ising_step F field beta rng pos = Inr (field', pos') \<Longrightarrow> pos \<le> pos'"
  by (simp add: ising_step_fold [OF surjective_pairing] fold_visit_pos_mono)

lemma ising_steps_Inl: "ising_steps F K beta rng (Inl e) = Inl e"
  by (induction K) simp_all

lemma ising_steps_same_stream:
  assumes "\<forall>i\<ge>pos. rng1 i = rng2 i"
  shows "ising_steps F K beta rng1 (Inr (field, pos)) = ising_steps F K beta rng2 (Inr (field, pos))"
  using assms
proof (induction K arbitrary: field pos)
  case 0
  then show ?case by simp
next
  case (Suc K)
  have eq: "ising_step F field beta rng1 pos = ising_step F field beta rng2 pos"
    using Suc.prems by (rule ising_step_same_stream)
  show ?case
  proof (cases "ising_step F field beta rng1 pos")
    case (Inl e)
    with eq have "ising_step F field beta rng2 pos = Inl e"
      by simp
    with Inl show ?thesis
      by (simp add: ising_steps_Inl)
  next
    case (Inr st)
    obtain f1 p1 where st: "st = (f1, p1)"
      by (cases st)
    from Inr st have "pos \<le> p1"
      by (auto dest: ising_step_pos_mono)
    with Suc.prems have "\<forall>i\<ge>p1. rng1 i = rng2 i"
      by simp
    moreover from eq Inr st have "ising_step F field beta rng2 pos = Inr (f1, p1)"
      by simp
    ultimately show ?thesis
      using Suc.IH [of p1 f1] Inr st by simp
  qed
qed

text \<open>
  Claim C7. Two runs of \<open>K\<close> steps that start from the same lattice, at the same position
  of random streams that agree from that position on, return the same result: the kernel
  reads nothing but the lattice, \<open>beta\<close> and the samples not yet consumed.
\<close>

theorem deterministic_given_stream:
  assumes "field1 = field2" "\<forall>i\<ge>pos. rng1 i = rng2 i"
  shows "ising_steps F K beta rng1 (Inr (field1, pos)) =
         ising_steps F K beta rng2 (Inr (field2, pos))"
  using assms ising_steps_same_stream [of pos rng1 rng2 F K beta field1] by simp

theorem deterministic_given_stream_witness:
  "ising_steps exact_np 50 0 (\<lambda>i. if i < 2 then 0 else 1 / 2)
     (Inr ([[1, 1, 1], [1, - 1, 1], [1, 1, 1]], 2)) =
   ising_steps exact_np 50 0 (\<lambda>i. 1 / 2) (Inr ([[1, 1, 1], [1, - 1, 1], [1, 1, 1]], 2))"
proof -
  have h: "\<forall>i\<ge>2::nat. (if i < 2 then 0 else 1 / 2) = (1 / 2 :: real)"
    by simp
  show ?thesis
    using h deterministic_given_stream
      [where ?field1.0 = "[[1, 1, 1], [1, - 1, 1], [1, 1, 1]]"
        and ?field2.0 = "[[1, 1, 1], [1, - 1, 1], [1, 1, 1]]" and pos = 2
        and ?rng1.0 = "\<lambda>i. if i < 2 then 0 else 1 / 2" and ?rng2.0 = "\<lambda>i. 1 / 2"
        and K = 50 and beta = 0 and F = exact_np, OF refl h]
    by blast
qed

section \<open>The claim about the parity classes\<close>

lemma neighbour_cells_list:
  "neighbour_cells N M n m =
     [(nat ((int n - 1) mod int N), nat ((int m - 1) mod int M)),
      (nat ((int n - 1) mod int N), nat (int m mod int M)),
      (nat ((int n - 1) mod int N), nat ((int m + 1) mod int M)),
      (nat (int n mod int N), nat ((int m - 1) mod int M)),
      (nat (int n mod int N), nat ((int m + 1) mod int M)),
      (nat ((int n + 1) mod int N), nat ((int m - 1) mod int M)),
      (nat ((int n + 1) mod int N), nat (int m mod int M)),
      (nat ((int n + 1) mod int N), nat ((int m + 1) mod int M))]"
  by (simp add: neighbour_cells_def neighbour_loop_unfold)

lemma neighbour_cells_offsets:
  assumes "(a, b) \<in> set (neighbour_cells N M n m)"
  shows "\<exists>di dj. di \<in> {- 1, 0, 1} \<and> dj \<in> {- 1, 0, 1}
           \<and> a = nat ((int n + di) mod int N) \<and> b = nat ((int m + dj) mod int M)"
proof -
  have "a = nat ((int n + - 1) mod int N) \<or> a = nat ((int n + 0) mod int N) \<or>
        a = nat ((int n + 1) mod int N)"
    using assms unfolding neighbour_cells_list by (simp only: set_simps insert_iff prod.inject empty_iff add_0_right add_uminus_conv_diff) blast
  moreover have "b = nat ((int m + - 1) mod int M) \<or> b = nat ((int m + 0) mod int M) \<or>
        b = nat ((int m + 1) mod int M)"
    using assms unfolding neighbour_cells_list by (simp only: set_simps insert_iff prod.inject empty_iff add_0_right add_uminus_conv_diff) blast
  ultimately show ?thesis
    by (simp only: insert_iff empty_iff) blast
qed

lemma wrap_same_parity:
  assumes "even N \<or> N = 1" "n < N" "n' mod 2 = n mod 2"
    and "n' = nat ((int n + d) mod int N)" "d \<in> {- 1, 0, 1}"
  shows "n' = n"
proof (cases "N = 1")
  case True
  with assms(2) have "n = 0"
    by simp
  moreover from True assms(4) have "n' = 0"
    by simp
  ultimately show ?thesis
    by simp
next
  case False
  with assms(1) have "even N"
    by simp
  then have ev: "2 dvd int N"
    by simp
  from assms(2) have pos: "0 < int N"
    by simp
  then have "0 \<le> (int n + d) mod int N"
    by simp
  with assms(4) have n': "int n' = (int n + d) mod int N"
    by simp
  have "(int n + d) mod int N mod 2 = (int n + d) mod 2"
    using ev by (rule mod_mod_cancel)
  with n' have "int n' mod 2 = (int n + d) mod 2"
    by simp
  moreover have "int n' mod 2 = int n mod 2"
  proof -
    have "int (n' mod 2) = int (n mod 2)"
      using assms(3) by simp
    then show ?thesis
      by (simp only: zmod_int of_nat_numeral)
  qed
  ultimately have eq: "(int n + d) mod 2 = int n mod 2"
    by simp
  have "d \<noteq> 1"
  proof
    assume "d = 1"
    with eq have "(int n + 1) mod 2 = int n mod 2"
      by simp
    then show False
      by presburger
  qed
  moreover have "d \<noteq> - 1"
  proof
    assume "d = - 1"
    with eq have "(int n - 1) mod 2 = int n mod 2"
      by simp
    then show False
      by presburger
  qed
  ultimately have "d = 0"
    using assms(5) by blast
  with n' have "int n' = int n mod int N"
    by simp
  with assms(2) show ?thesis
    by simp
qed

lemma same_class_not_neighbour:
  assumes "even N \<or> N = 1" "even M \<or> M = 1" "n < N" "m < M"
    and "n' mod 2 = n mod 2" "m' mod 2 = m mod 2" "(n', m') \<noteq> (n, m)"
  shows "(n', m') \<notin> set (neighbour_cells N M n m)"
proof
  assume "(n', m') \<in> set (neighbour_cells N M n m)"
  then have "\<exists>di dj. di \<in> {- 1, 0, 1} \<and> dj \<in> {- 1, 0, 1}
           \<and> n' = nat ((int n + di) mod int N) \<and> m' = nat ((int m + dj) mod int M)"
    by (rule neighbour_cells_offsets)
  then obtain di dj where d: "di \<in> {- 1, 0, 1}" "dj \<in> {- 1, 0, 1}"
    "n' = nat ((int n + di) mod int N)" "m' = nat ((int m + dj) mod int M)"
    by (elim exE conjE)
  have "n' = n"
    using assms(1,3,5) d(3,1) by (rule wrap_same_parity)
  moreover have "m' = m"
    using assms(2,4,6) d(4,2) by (rule wrap_same_parity)
  ultimately show False
    using assms(7) by simp
qed

lemma distinct_range2: "distinct (range2 a N)"
  by (simp add: range2_filter)

lemma distinct_class_sites: "distinct (class_sites N M p q)"
  by (simp add: class_sites_def distinct_product distinct_range2)

lemma pass_reads_start_values:
  assumes "even N \<or> N = 1" "even M \<or> M = 1" "p < 2" "q < 2"
    and split: "class_sites N M p q = before @ (n, m) # after"
    and run: "fold (\<lambda>(n, m). visit F beta rng n m) before (Inr (field, pos)) = Inr (field1, pos1)"
    and c: "(a, b) \<in> set (neighbour_cells N M n m)"
  shows "get field1 a b = get field a b"
proof (rule fold_frame [where vis = "visit F beta rng"])
  show "visit F beta rng n m (Inl e) = Inl e" for n m e
    by (rule visit_Inl)
  show "get f' a b = get f a b"
    if "visit F beta rng n m (Inr (f, p)) = Inr (f', p')" "(a, b) \<noteq> (n, m)" for n m f p f' p'
    using that by (rule visit_frame)
  show "fold (\<lambda>(n, m). visit F beta rng n m) before (Inr (field, pos)) = Inr (field1, pos1)"
    by (rule run)
  show "(a, b) \<notin> set before"
  proof
    assume in_before: "(a, b) \<in> set before"
    have "distinct (before @ (n, m) # after)"
      using distinct_class_sites [of N M p q] split by simp
    with in_before have ne: "(a, b) \<noteq> (n, m)"
      by auto
    have "(a, b) \<in> set (class_sites N M p q)" "(n, m) \<in> set (class_sites N M p q)"
      using in_before split by simp_all
    then have "a mod 2 = p \<and> b mod 2 = q \<and> a < N \<and> b < M"
      "n mod 2 = p \<and> m mod 2 = q \<and> n < N \<and> m < M"
      using assms(3,4) by (auto dest: class_sites_parity)
    then have "(a, b) \<notin> set (neighbour_cells N M n m)"
      using assms(1,2) ne by (intro same_class_not_neighbour) simp_all
    with c show False
      by simp
  qed
qed

lemma range2_0_4: "range2 0 4 = [0, 2]"
  by (simp add: range2.simps)

lemma class_sites_4x4: "class_sites 4 4 0 0 = [(0, 0)] @ (0, 2) # [(2, 0), (2, 2)]"
  by (simp add: class_sites_def range2_0_4)

lemma update_4x4:
  "fold (\<lambda>(n, m). visit exact_np 0 (\<lambda>i. 1 / 2) n m) [(0, 0)]
     (Inr ([[1, 1, 1, 1], [1, 1, 1, 1], [1, 1, 1, 1], [1, 1, 1, 1]], 0)) =
   Inr ([[- 1, 1, 1, 1], [1, 1, 1, 1], [1, 1, 1, 1], [1, 1, 1, 1]], 1)"
  by (simp add: visit_def ising_update_def shape_def local_dE_def neighbour_total_def
      neighbour_loop_unfold get_def flip_def put_def exact_np_def)

text \<open>
  Claim C5, as stated, says that on every \<open>N \<times> M\<close> lattice two distinct sites of one
  parity class are never among each other's eight wrapped neighbours. On a \<open>3 \<times> 3\<close>
  lattice the sites \<open>(0, 0)\<close> and \<open>(2, 0)\<close> are both in class \<open>(0, 0)\<close>, and each is
  a neighbour of the other, because row \<open>2 + 1\<close> wraps to row \<open>0\<close>.
\<close>

theorem same_class_counterexample:
  "(0::nat) < 3 \<and> (2::nat) < 3 \<and> (2::nat) mod 2 = 0 mod 2 \<and> (0::nat) mod 2 = 0 mod 2
   \<and> (2 :: nat, 0 :: nat) \<noteq> (0, 0) \<and> (2, 0) \<in> set (neighbour_cells 3 3 0 0)
   \<and> (0, 0) \<in> set (neighbour_cells 3 3 2 0)"
  by (simp add: neighbour_cells_list)

text \<open>
  Claim C5, amended. When each of \<open>N\<close> and \<open>M\<close> is even or equal to 1, no site of the
  parity class of \<open>(n, m)\<close> other than \<open>(n, m)\<close> itself is among the eight wrapped
  neighbours of \<open>(n, m)\<close>; and at the moment the pass over a class calls the evaluator at
  \<open>(n, m)\<close>, every cell the evaluator reads as a neighbour still holds the value it had when
  the pass began.
\<close>

theorem same_class_sites_not_neighbours:
  assumes "even N \<or> N = 1" "even M \<or> M = 1" "n < N" "m < M"
  shows "(\<forall>n' m'. n' mod 2 = n mod 2 \<and> m' mod 2 = m mod 2 \<and> (n', m') \<noteq> (n, m) \<longrightarrow>
            (n', m') \<notin> set (neighbour_cells N M n m))
       \<and> (p < 2 \<and> q < 2 \<and> class_sites N M p q = before @ (n, m) # after
           \<and> fold (\<lambda>(n, m). visit F beta rng n m) before (Inr (field, pos)) = Inr (field1, pos1) \<longrightarrow>
            (\<forall>(a, b) \<in> set (neighbour_cells N M n m). get field1 a b = get field a b))"
  using same_class_not_neighbour [OF assms]
    pass_reads_start_values [OF assms(1,2), where F = F and beta = beta and rng = rng]
  by blast

theorem same_class_sites_not_neighbours_witness:
  "even (4::nat) \<and> (2::nat) < 4
   \<and> (0, 0) \<notin> set (neighbour_cells 4 4 0 2)
   \<and> (2, 2) \<notin> set (neighbour_cells 4 4 0 2)
   \<and> fold (\<lambda>(n, m). visit exact_np 0 (\<lambda>i. 1 / 2) n m) [(0, 0)]
        (Inr ([[1, 1, 1, 1], [1, 1, 1, 1], [1, 1, 1, 1], [1, 1, 1, 1]], 0)) =
      Inr ([[- 1, 1, 1, 1], [1, 1, 1, 1], [1, 1, 1, 1], [1, 1, 1, 1]], 1)
   \<and> get [[- 1, 1, 1, 1], [1, 1, 1, 1], [1, 1, 1, 1], [1, 1, 1, 1 :: int]] 0 1 =
      get [[1, 1, 1, 1], [1, 1, 1, 1], [1, 1, 1, 1], [1, 1, 1, 1]] 0 1"
proof -
  have e: "even (4::nat) \<or> (4::nat) = 1"
    by simp
  have l: "(0::nat) < 4" "(2::nat) < 4"
    by simp_all
  note inst = same_class_sites_not_neighbours
      [OF e e l, where F = exact_np and p = 0 and q = 0 and before = "[(0, 0)]"
        and after = "[(2, 0), (2, 2)]" and beta = 0 and rng = "\<lambda>i. 1 / 2"
        and field = "[[1, 1, 1, 1], [1, 1, 1, 1], [1, 1, 1, 1], [1, 1, 1, 1]]" and pos = 0
        and ?field1.0 = "[[- 1, 1, 1, 1], [1, 1, 1, 1], [1, 1, 1, 1], [1, 1, 1, 1]]"
        and ?pos1.0 = 1]
  have c: "(0, 1) \<in> set (neighbour_cells 4 4 0 2)"
    by (simp add: neighbour_cells_list)
  from inst have "(0, 0) \<notin> set (neighbour_cells 4 4 0 2)" "(2, 2) \<notin> set (neighbour_cells 4 4 0 2)"
    by simp_all
  moreover from inst class_sites_4x4 update_4x4 c
  have "get [[- 1, 1, 1, 1], [1, 1, 1, 1], [1, 1, 1, 1], [1, 1, 1, 1 :: int]] 0 1 =
        get [[1, 1, 1, 1], [1, 1, 1, 1], [1, 1, 1, 1], [1, 1, 1, 1]] 0 1"
    by fastforce
  ultimately show ?thesis
    using update_4x4 by simp
qed

section \<open>The claim about the returned array\<close>

lemma fold_at:
  fixes vis :: "nat \<Rightarrow> nat \<Rightarrow> error + 'a array2 \<times> nat \<Rightarrow> error + 'a array2 \<times> nat"
    and vis_at :: "nat \<Rightarrow> nat \<Rightarrow> error + 'a heap \<times> nat \<Rightarrow> error + 'a heap \<times> nat"
  assumes at: "\<And>n m h pos. vis_at n m (Inr (h, pos)) =
                 (case vis n m (Inr (h ! a, pos)) of Inl e \<Rightarrow> Inl e
                  | Inr (f, pos') \<Rightarrow> Inr (h[a := f], pos'))"
    and err: "\<And>n m e. vis_at n m (Inl e) = Inl e" "\<And>n m e. vis n m (Inl e) = Inl e"
    and a: "a < length h"
  shows "fold (\<lambda>(n, m). vis_at n m) ps (Inr (h, pos)) =
           (case fold (\<lambda>(n, m). vis n m) ps (Inr (h ! a, pos)) of Inl e \<Rightarrow> Inl e
            | Inr (f, pos') \<Rightarrow> Inr (h[a := f], pos'))"
  using a
proof (induction ps arbitrary: h pos)
  case Nil
  then show ?case by simp
next
  case (Cons s ps)
  obtain n m where s: "s = (n, m)"
    by (cases s)
  show ?case
  proof (cases "vis n m (Inr (h ! a, pos))")
    case (Inl e)
    then have "vis_at n m (Inr (h, pos)) = Inl e"
      by (simp add: at)
    with Inl s show ?thesis
      by (simp add: fold_Inl [of vis_at, OF err(1)] fold_Inl [of vis, OF err(2)])
  next
    case (Inr st)
    obtain f1 p1 where st: "st = (f1, p1)"
      by (cases st)
    with Inr have 1: "vis_at n m (Inr (h, pos)) = Inr (h[a := f1], p1)"
      by (simp add: at)
    have "a < length (h[a := f1])"
      using Cons.prems by simp
    from Cons.IH [OF this, of p1] Cons.prems 1 Inr st s show ?thesis
      by (simp split: sum.splits)
  qed
qed

lemma visit_at_visit:
  "visit_at F a beta rng n m (Inr (h, pos)) =
     (case visit F beta rng n m (Inr (h ! a, pos)) of Inl e \<Rightarrow> Inl e
      | Inr (f, pos') \<Rightarrow> Inr (h[a := f], pos'))"
  by (simp add: visit_at_def visit_def split: sum.splits)

lemma cy_visit_at_cy_visit:
  "cy_visit_at C a beta RAND_MAX rand n m (Inr (h, pos)) =
     (case cy_visit C beta RAND_MAX rand n m (Inr (h ! a, pos)) of Inl e \<Rightarrow> Inl e
      | Inr (f, pos') \<Rightarrow> Inr (h[a := f], pos'))"
  by (simp add: cy_visit_at_def cy_visit_def split: sum.splits)

lemma ising_step_at_step:
  assumes "a < length h"
  shows "ising_step_at F h a beta rng pos =
     (case ising_step F (h ! a) beta rng pos of Inl e \<Rightarrow> Inl e
      | Inr (f, pos') \<Rightarrow> Inr (h[a := f], a, pos'))"
proof -
  have "fold (\<lambda>(n, m). visit_at F a beta rng n m) ps (Inr (h, pos)) =
           (case fold (\<lambda>(n, m). visit F beta rng n m) ps (Inr (h ! a, pos)) of Inl e \<Rightarrow> Inl e
            | Inr (f, pos') \<Rightarrow> Inr (h[a := f], pos'))" for ps
    by (rule fold_at [OF visit_at_visit _ visit_Inl assms]) (simp add: visit_at_def)
  then show ?thesis
    by (simp add: ising_step_at_def ising_step_def sweep_visit_order split: prod.splits sum.splits)
qed

lemma cy_ising_step_at_step:
  assumes "a < length h"
  shows "cy_ising_step_at C h a beta RAND_MAX rand pos =
     (case cy_ising_step C (h ! a) beta RAND_MAX rand pos of Inl e \<Rightarrow> Inl e
      | Inr (f, pos') \<Rightarrow> Inr (h[a := f] @ [f], length h, pos'))"
proof -
  have "fold (\<lambda>(n, m). cy_visit_at C a beta RAND_MAX rand n m) ps (Inr (h, pos)) =
           (case fold (\<lambda>(n, m). cy_visit C beta RAND_MAX rand n m) ps (Inr (h ! a, pos)) of
              Inl e \<Rightarrow> Inl e
            | Inr (f, pos') \<Rightarrow> Inr (h[a := f], pos'))" for ps
    by (rule fold_at [OF cy_visit_at_cy_visit _ cy_visit_Inl assms]) (simp add: cy_visit_at_def)
  then show ?thesis
    using assms
    by (simp add: cy_ising_step_at_def cy_ising_step_def sweep_visit_order
        split: prod.splits sum.splits)
qed

lemma visit_shape:
  assumes "shape f = (N, M)" "(n, m) \<in> {0..<N} \<times> {0..<M}"
  shows "\<exists>f' p'. visit F beta rng n m (Inr (f, p)) = Inr (f', p') \<and> shape f' = (N, M)"
  using assms by (auto simp: visit_def ising_update_cases shape_flip)

lemma cy_visit_shape:
  assumes "shape f = (N, M)" "(n, m) \<in> {0..<N} \<times> {0..<M}"
  shows "\<exists>f' p'. cy_visit C beta RAND_MAX rand n m (Inr (f, p)) = Inr (f', p') \<and> shape f' = (N, M)"
  using assms by (auto simp: cy_visit_def cy_ising_update_cases cy_flip_def shape_put)

lemma ising_step_returns:
  "\<exists>field' pos'. ising_step F field beta rng pos = Inr (field', pos') \<and> shape field' = shape field"
proof -
  obtain N M where s: "shape field = (N, M)"
    by (cases "shape field")
  have "\<exists>f' p'. fold (\<lambda>(n, m). visit F beta rng n m) (visit_order N M) (Inr (field, pos)) =
          Inr (f', p') \<and> shape f' = (N, M)"
  proof (rule fold_invariant [where S = "{0..<N} \<times> {0..<M}"])
    show "\<exists>f' p'. visit F beta rng n m (Inr (f, p)) = Inr (f', p') \<and> shape f' = (N, M)"
      if "shape f = (N, M)" "(n, m) \<in> {0..<N} \<times> {0..<M}" for n m f p
      using that by (rule visit_shape)
    show "shape field = (N, M)"
      by (rule s)
    show "set (visit_order N M) \<subseteq> {0..<N} \<times> {0..<M}"
      by (simp add: set_visit_order)
  qed
  then show ?thesis
    by (simp add: ising_step_fold [OF s] s)
qed

lemma cy_ising_step_returns:
  "\<exists>field' pos'. cy_ising_step C field beta RAND_MAX rand pos = Inr (field', pos')
     \<and> shape field' = shape field"
proof -
  obtain N M where s: "shape field = (N, M)"
    by (cases "shape field")
  have "\<exists>f' p'. fold (\<lambda>(n, m). cy_visit C beta RAND_MAX rand n m) (visit_order N M)
          (Inr (field, pos)) = Inr (f', p') \<and> shape f' = (N, M)"
  proof (rule fold_invariant [where S = "{0..<N} \<times> {0..<M}"])
    show "\<exists>f' p'. cy_visit C beta RAND_MAX rand n m (Inr (f, p)) = Inr (f', p')
            \<and> shape f' = (N, M)"
      if "shape f = (N, M)" "(n, m) \<in> {0..<N} \<times> {0..<M}" for n m f p
      using that by (rule cy_visit_shape)
    show "shape field = (N, M)"
      by (rule s)
    show "set (visit_order N M) \<subseteq> {0..<N} \<times> {0..<M}"
      by (simp add: set_visit_order)
  qed
  then show ?thesis
    by (simp add: cy_ising_step_fold [OF s] s)
qed

lemma range2_1x1: "range2 0 (Suc 0) = [0]" "range2 (Suc 0) (Suc 0) = []"
  by (simp_all add: range2.simps)

lemma visit_order_1x1: "visit_order (Suc 0) (Suc 0) = [(0, 0)]"
  by (simp add: visit_order_classes class_sites_def range2_1x1)

lemma cy_step_1x1: "cy_ising_step exact_c [[1]] 0 32767 Suc 0 = Inr ([[- 1]], 1)"
proof -
  have s: "shape [[1 :: 64 word]] = (1, 1)"
    by (simp add: shape_def)
  have "cy_neighbour_total [[1]] 0 0 = 8"
    by (simp add: cy_neighbour_total_def s neighbour_loop_unfold get_def)
  then have "cy_local_dE [[1]] 0 0 = 16"
    by (simp add: cy_local_dE_def get_def float32_of_int_exact)
  then have "cy_ising_update exact_c [[1]] 0 0 0 32767 Suc 0 = Inr ([[- 1]], 1)"
    by (simp add: cy_ising_update_cases [OF s] cy_flip_def put_def get_def exact_c_def)
  then show ?thesis
    by (simp add: cy_ising_step_fold [OF s] visit_order_1x1 cy_visit_def)
qed

lemma step_1x1: "ising_step exact_np [[1]] 0 real 0 = Inr ([[- 1]], 1)"
proof -
  have s: "shape [[1 :: int]] = (1, 1)"
    by (simp add: shape_def)
  have "local_dE [[1]] 0 0 = 16"
    by (simp add: local_dE_def neighbour_total_def s neighbour_loop_unfold get_def)
  then have "ising_update exact_np [[1]] 0 0 0 real 0 = Inr ([[- 1]], 1)"
    by (simp add: ising_update_cases [OF s] flip_def put_def get_def exact_np_def)
  then show ?thesis
    by (simp add: ising_step_fold [OF s] visit_order_1x1 visit_def)
qed

text \<open>
  What the two steps do with the store: both update the array at the address they are
  given, in place, and always return. \<open>ising_step\<close> returns that address and allocates
  nothing; \<open>cy_ising_step\<close> appends a new array with the contents of the updated one and
  returns its address.
\<close>

lemma step_at_result:
  assumes "a < length h" "a < length ch"
  shows "(\<exists>field' pos'. ising_step F (h ! a) beta rng pos = Inr (field', pos')
            \<and> ising_step_at F h a beta rng pos = Inr (h[a := field'], a, pos'))
       \<and> (\<exists>cfield' cpos'. cy_ising_step C (ch ! a) cbeta RAND_MAX rand cpos = Inr (cfield', cpos')
            \<and> cy_ising_step_at C ch a cbeta RAND_MAX rand cpos =
                Inr (ch[a := cfield'] @ [cfield'], length ch, cpos'))"
proof -
  obtain field' pos' where 1: "ising_step F (h ! a) beta rng pos = Inr (field', pos')"
    using ising_step_returns [of F "h ! a" beta rng pos] by (elim exE conjE)
  obtain cfield' cpos'
    where 2: "cy_ising_step C (ch ! a) cbeta RAND_MAX rand cpos = Inr (cfield', cpos')"
    using cy_ising_step_returns [of C "ch ! a" cbeta RAND_MAX rand cpos] by (elim exE conjE)
  show ?thesis
    using 1 2 by (simp add: ising_step_at_step [OF assms(1)] cy_ising_step_at_step [OF assms(2)])
qed

text \<open>
  Claim C6. The step mutates the lattice in place and returns the same lattice it was
  given: the caller's own buffer, not a copy. \<open>ising_step\<close> does so (the lemma above). The
  Cython step does not: called on the array at address 0 of a store that holds this one
  array, \<open>cy_ising_step\<close> updates the array in place and returns address 1, a new array
  with the same contents.
\<close>

theorem cython_step_returns_copy:
  "cy_ising_step_at exact_c [[[1]]] 0 0 32767 Suc 0 = Inr ([[[- 1]], [[- 1]]], 1, 1) \<and> (1::nat) \<noteq> 0"
  by (simp add: cy_ising_step_at_step cy_step_1x1)

end
